theory Spec2Isabelle
  imports Complex_Main "HOL-Library.Product_Lexorder" "HOL-Library.Log_Nat"
begin

section \<open>Table primitives\<close>

text \<open>
  A table is the list of its rows, a row is a record of its columns, and a nullable
  column has an option type (\<open>None\<close> is NULL, NaN or NaT).  Timestamps are whole
  seconds.  A float is the rational number that is its value; the result of a float
  operation is rounded to the nearest float.
\<close>

type_synonym dttm = int

definition nulls_last :: "int option \<Rightarrow> bool \<times> int" where
  \<comment> \<open>sort key of a nullable column: the values ascending, then the nulls\<close>
  "nulls_last t = (case t of None \<Rightarrow> (True, 0) | Some x \<Rightarrow> (False, x))"

definition nulls_last_nat :: "nat option \<Rightarrow> bool \<times> nat" where
  "nulls_last_nat t = (case t of None \<Rightarrow> (True, 0) | Some x \<Rightarrow> (False, x))"

section \<open>Window scanner: \<open>find_intubation_times\<close> (helper.py)\<close>

record vent_row =
  encounter_block :: nat
  recorded_dttm :: "dttm option"
  device_category :: "string option"
  mode_category :: "string option"
  fio2_set :: "rat option"
  peep_set :: "rat option"

text \<open>
  The window enters the query as the text \<open>INTERVAL '{time_window} hours'\<close>.  An int
  prints as its digits.  A float prints as the shortest decimal that reads back as the
  float, in fixed notation from \<open>0.0001\<close> up to, but not including, \<open>1e16\<close>, and with an
  exponent outside of this range; a float is given here by the decimal that it prints.
\<close>

datatype number = PyInt int | PyFloat rat

datatype scan_error = IntervalError | FrameError

definition hours :: "number \<Rightarrow> rat" where
  \<comment> \<open>the value of the number\<close>
  "hours w = (case w of PyInt n \<Rightarrow> of_int n | PyFloat x \<Rightarrow> x)"

definition printed_hours :: "number \<Rightarrow> rat option" where
  \<comment> \<open>the number that the text shows in fixed notation; \<open>None\<close> for a text with an
      exponent\<close>
  "printed_hours w =
     (case w of
        PyInt n \<Rightarrow> Some (of_int n)
      | PyFloat x \<Rightarrow>
          if x = 0 \<or> (1 / 10000 \<le> \<bar>x\<bar> \<and> \<bar>x\<bar> < 10000000000000000) then Some x else None)"

definition interval_micros :: "number \<Rightarrow> scan_error + int" where
  \<comment> \<open>the interval of the literal, a 64-bit count of microseconds: the hours of a text in
      fixed notation, rounded to the microsecond.  The literal is refused when the text
      has an exponent, which is not read as a number of hours, and when the count of
      microseconds is out of the 64-bit range.\<close>
  "interval_micros w =
     (case printed_hours w of
        None \<Rightarrow> Inl IntervalError
      | Some h \<Rightarrow>
          if \<bar>round (h * 3600000000)\<bar> \<le> 9223372036854775807
          then Inr (round (h * 3600000000))
          else Inl IntervalError)"

text \<open>
  \<open>PARTITION BY encounter_block ORDER BY recorded_dttm RANGE BETWEEN INTERVAL w hours
  PRECEDING AND INTERVAL w hours FOLLOWING\<close>: the frame of the current row \<open>r\<close> holds
  the rows of its partition whose timestamp lies between \<open>t - w\<close> and \<open>t + w\<close>, both
  ends included, in microseconds.  A row whose ordering value is NULL has its peers as
  frame (the other NULL rows of the partition), and is in the frame of no timestamped
  row.
\<close>

definition in_frame :: "int \<Rightarrow> vent_row \<Rightarrow> vent_row \<Rightarrow> bool" where
  "in_frame micros r r' \<longleftrightarrow>
     vent_row.encounter_block r' = vent_row.encounter_block r \<and>
     (case recorded_dttm r of
        None \<Rightarrow> recorded_dttm r' = None
      | Some t \<Rightarrow>
          (case recorded_dttm r' of
             None \<Rightarrow> False
           | Some t' \<Rightarrow> t * 1000000 - micros \<le> t' * 1000000
                       \<and> t' * 1000000 \<le> t * 1000000 + micros))"

definition frame :: "int \<Rightarrow> vent_row list \<Rightarrow> vent_row \<Rightarrow> vent_row list" where
  "frame micros vent_data r = filter (in_frame micros r) vent_data"

fun sql_max :: "nat list \<Rightarrow> nat option" where
  \<comment> \<open>the aggregate MAX: NULL over no rows\<close>
  "sql_max [] = None"
| "sql_max (x # xs) = Some (fold max xs x)"

record tw_row =
  tw_encounter_block :: nat
  tw_recorded_dttm :: "dttm option"
  has_imv_in_window :: "nat option"
  has_mode_in_window :: "nat option"
  has_fio2_in_window :: "nat option"
  has_peep_in_window :: "nat option"

definition time_windows :: "int \<Rightarrow> vent_row list \<Rightarrow> tw_row list" where
  "time_windows micros vent_data =
     map (\<lambda>r. \<lparr>tw_encounter_block = vent_row.encounter_block r,
               tw_recorded_dttm = recorded_dttm r,
               has_imv_in_window =
                 sql_max (map (\<lambda>x. if device_category x = Some ''IMV'' then 1 else 0)
                              (frame micros vent_data r)),
               has_mode_in_window =
                 sql_max (map (\<lambda>x. if mode_category x \<noteq> None then 1 else 0)
                              (frame micros vent_data r)),
               has_fio2_in_window =
                 sql_max (map (\<lambda>x. if fio2_set x \<noteq> None then 1 else 0)
                              (frame micros vent_data r)),
               has_peep_in_window =
                 sql_max (map (\<lambda>x. if peep_set x \<noteq> None then 1 else 0)
                              (frame micros vent_data r))\<rparr>)
         vent_data"

definition intubation_order :: "nat \<times> dttm option \<Rightarrow> nat \<times> bool \<times> int" where
  \<comment> \<open>ORDER BY encounter_block, recorded_dttm\<close>
  "intubation_order p = (fst p, nulls_last (snd p))"

definition execute_query :: "vent_row list \<Rightarrow> int \<Rightarrow> (nat \<times> dttm option) list" where
  \<comment> \<open>the query with an interval of \<open>micros\<close> microseconds\<close>
  "execute_query vent micros =
     sort_key intubation_order
       (remdups
         (map (\<lambda>t. (tw_encounter_block t, tw_recorded_dttm t))
           (filter (\<lambda>t. has_imv_in_window t = Some 1
                       \<and> has_mode_in_window t = Some 1
                       \<and> has_fio2_in_window t = Some 1
                       \<and> has_peep_in_window t = Some 1)
             (time_windows micros vent))))"

text \<open>
  The two ends of the frame of a row with a timestamp, \<open>t - w\<close> and \<open>t + w\<close>, are
  computed as timestamps: counts of microseconds of 64 bits, from 290309-12-22 BC to
  294247-01-10.  The query fails when an end is out of this range, and when the interval
  is negative, so that an end lies on the wrong side of the row.
\<close>

definition frame_bounds_ok :: "int \<Rightarrow> vent_row list \<Rightarrow> bool" where
  "frame_bounds_ok micros vent_data \<longleftrightarrow>
     (\<forall>r\<in>set vent_data.
        case recorded_dttm r of
          None \<Rightarrow> True
        | Some t \<Rightarrow> 0 \<le> micros
                   \<and> - 9223372022400000000 \<le> t * 1000000 - micros
                   \<and> t * 1000000 + micros \<le> 9223372036854775806)"

definition find_intubation_times ::
  "vent_row list \<Rightarrow> number \<Rightarrow> scan_error + (nat \<times> dttm option) list" where
  "find_intubation_times vent time_window =
     (case interval_micros time_window of
        Inl e \<Rightarrow> Inl e
      | Inr micros \<Rightarrow>
          if frame_bounds_ok micros vent then Inr (execute_query vent micros)
          else Inl FrameError)"


section \<open>Interval stitcher: \<open>stitch_icu_stays\<close> (icu_stitching.py)\<close>

subsection \<open>The pandas operations used\<close>

datatype error = IntCastingNaNError

fun drop_duplicates :: "'a list \<Rightarrow> 'a list" where
  \<comment> \<open>\<open>DataFrame.drop_duplicates()\<close>: the first occurrence of every row is kept\<close>
  "drop_duplicates [] = []"
| "drop_duplicates (x # xs) = x # drop_duplicates (filter (\<lambda>y. y \<noteq> x) xs)"

definition ngroup :: "('a \<Rightarrow> 'k::linorder option) \<Rightarrow> 'a list \<Rightarrow> nat option list" where
  \<comment> \<open>\<open>groupby(keys).ngroup()\<close>: the groups are numbered from 0 in the order of their
      sorted keys; a row with a null key is in no group and gets NaN\<close>
  "ngroup key df =
     map (\<lambda>r. case key r of
                None \<Rightarrow> None
              | Some k \<Rightarrow> Some (length (filter (\<lambda>k'. k' < k) (remdups (List.map_filter key df)))))
         df"

definition groupby_rank_dense :: "'k list \<Rightarrow> nat option list \<Rightarrow> nat option list" where
  \<comment> \<open>\<open>groupby(key)[col].rank(method='dense')\<close>: 1 + the number of distinct smaller values
      of the column in the row's group; NaN stays NaN\<close>
  "groupby_rank_dense keys col =
     map (\<lambda>(k, v). case v of
                     None \<Rightarrow> None
                   | Some x \<Rightarrow>
                       Some (Suc (length (remdups (filter (\<lambda>y. y < x)
                         (List.map_filter (\<lambda>(k', v'). if k' = k then v' else None)
                            (zip keys col)))))))
         (zip keys col)"

definition astype_int :: "nat option list \<Rightarrow> error + nat list" where
  \<comment> \<open>\<open>.astype(int)\<close> raises on a column that holds a NaN\<close>
  "astype_int col = (if None \<in> set col then Inl IntCastingNaNError else Inr (map the col))"

fun scatter :: "('r \<Rightarrow> 'k) \<Rightarrow> ('k \<Rightarrow> 'b list) \<Rightarrow> 'r list \<Rightarrow> 'b list" where
  \<comment> \<open>hands the per-group results back to the rows, each group's values in row order\<close>
  "scatter key m [] = []"
| "scatter key m (r # rs) = hd (m (key r)) # scatter key (m(key r := tl (m (key r)))) rs"

definition groupby_transform :: "('r \<Rightarrow> 'k) \<Rightarrow> ('r list \<Rightarrow> 'b list) \<Rightarrow> 'r list \<Rightarrow> 'b list" where
  \<comment> \<open>\<open>groupby(key).transform(f)\<close> (and \<open>groupby(key).shift\<close>): \<open>f\<close> is applied to the rows
      of each group, in row order, and its results are put back at the rows' positions\<close>
  "groupby_transform key f df = scatter key (\<lambda>k. f (filter (\<lambda>r. key r = k) df)) df"

fun shift_neg1 :: "'a option list \<Rightarrow> 'a option list" where
  \<comment> \<open>\<open>shift(-1)\<close>: every row gets the value of the next one, the last row a null\<close>
  "shift_neg1 [] = []"
| "shift_neg1 (x # xs) = xs @ [None]"

fun bfill :: "'a option list \<Rightarrow> 'a option list" where
  \<comment> \<open>a null takes the next valid value below it, if there is one\<close>
  "bfill [] = []"
| "bfill (Some v # xs) = Some v # bfill xs"
| "bfill (None # xs) = (case bfill xs of [] \<Rightarrow> None | y # ys \<Rightarrow> y) # bfill xs"

fun ffill_from :: "'a option \<Rightarrow> 'a option list \<Rightarrow> 'a option list" where
  "ffill_from c [] = []"
| "ffill_from c (Some v # xs) = Some v # ffill_from (Some v) xs"
| "ffill_from c (None # xs) = c # ffill_from c xs"

definition ffill :: "'a option list \<Rightarrow> 'a option list" where
  \<comment> \<open>a null takes the last valid value above it, if there is one\<close>
  "ffill xs = ffill_from None xs"

definition agg_min :: "int option list \<Rightarrow> int option" where
  \<comment> \<open>\<open>min\<close> of a group skips the nulls\<close>
  "agg_min col = (case List.map_filter id col of [] \<Rightarrow> None | x # xs \<Rightarrow> Some (fold min xs x))"

definition agg_max :: "int option list \<Rightarrow> int option" where
  "agg_max col = (case List.map_filter id col of [] \<Rightarrow> None | x # xs \<Rightarrow> Some (fold max xs x))"

definition agg_last :: "'a option list \<Rightarrow> 'a option" where
  \<comment> \<open>\<open>last\<close> of a group is its last non-null value\<close>
  "agg_last col = (case rev (List.map_filter id col) of [] \<Rightarrow> None | x # xs \<Rightarrow> Some x)"

subsection \<open>The frames\<close>

record adt_row =
  patient_id :: nat
  encounter_block :: nat
  hospitalization_id :: nat
  in_dttm :: "dttm option"
  out_dttm :: "dttm option"
  location_category :: "string option"
  location_type :: "string option"

record icu_row = adt_row +
  icu_rank :: nat

record gap_row = icu_row +
  next_in_dttm :: "dttm option"
  out_to_next_icu_hrs :: "rat option"
  linked6hrs :: bool

record grp_row = gap_row +
  icu_group :: "nat option"

record agg_row =
  agg_encounter_block :: nat
  agg_icu_group :: nat
  agg_in_dttm :: "dttm option"
  agg_out_dttm :: "dttm option"
  agg_location_type :: "string option"

record stay_row =
  stay_encounter_block :: nat
  stay_icu_group :: "nat option"
  stay_icu_rank :: nat
  stay_in_dttm :: "dttm option"
  stay_out_dttm :: "dttm option"
  stay_location_type :: "string option"

definition assign_icu_rank :: "adt_row \<Rightarrow> nat \<Rightarrow> icu_row" where
  "assign_icu_rank r k = adt_row.extend r (icu_row.fields k)"

definition assign_gap :: "icu_row \<Rightarrow> dttm option \<Rightarrow> rat option \<Rightarrow> bool \<Rightarrow> gap_row" where
  "assign_gap r n h l = icu_row.extend r (gap_row.fields n h l)"

definition assign_icu_group :: "gap_row \<Rightarrow> nat option \<Rightarrow> grp_row" where
  "assign_icu_group r g = gap_row.extend r (grp_row.fields g)"

subsection \<open>Step 1: the ICU and stepdown rows\<close>

definition lower_char :: "char \<Rightarrow> char" where
  "lower_char c =
     (case map_of (zip ''ABCDEFGHIJKLMNOPQRSTUVWXYZ'' ''abcdefghijklmnopqrstuvwxyz'') c of
        None \<Rightarrow> c
      | Some l \<Rightarrow> l)"

definition str_lower :: "string \<Rightarrow> string" where
  "str_lower s = map lower_char s"

definition icu_mask :: "adt_row \<Rightarrow> bool" where
  \<comment> \<open>\<open>.str.lower().isin(['icu', 'stepdown'])\<close>: a null category gives False\<close>
  "icu_mask r =
     (case location_category r of
        None \<Rightarrow> False
      | Some s \<Rightarrow> str_lower s \<in> {''icu'', ''stepdown''})"

definition icu_adt_df :: "adt_row list \<Rightarrow> adt_row list" where
  "icu_adt_df adt_df = filter icu_mask adt_df"

subsection \<open>Step 2: the initial rank\<close>

definition initial_icu_rank :: "adt_row list \<Rightarrow> error + nat list" where
  \<comment> \<open>\<open>groupby(['encounter_block', 'in_dttm']).ngroup() + 1\<close>, then the dense rank of
      that number within the encounter, cast to int\<close>
  "initial_icu_rank df =
     astype_int
       (groupby_rank_dense (map encounter_block df)
          (map (map_option Suc)
             (ngroup (\<lambda>r. map_option (Pair (encounter_block r)) (in_dttm r)) df)))"

definition icu_adt :: "adt_row list \<Rightarrow> error + icu_row list" where
  "icu_adt adt_df =
     (let df = sort_key (\<lambda>r. (encounter_block r, nulls_last (in_dttm r))) (icu_adt_df adt_df)
      in case initial_icu_rank df of
           Inl e \<Rightarrow> Inl e
         | Inr ranks \<Rightarrow> Inr (map2 assign_icu_rank df ranks))"

subsection \<open>Step 3 to 5: duplicates, gaps and links\<close>

definition sort_encounter_rank :: "'a icu_row_scheme list \<Rightarrow> 'a icu_row_scheme list" where
  \<comment> \<open>\<open>sort_values(by=["encounter_block", "icu_rank"]).reset_index(drop=True)\<close>\<close>
  "sort_encounter_rank df = sort_key (\<lambda>r. (encounter_block r, icu_rank r)) df"

definition pow2 :: "int \<Rightarrow> rat" where
  \<comment> \<open>the power of two with an exponent of either sign\<close>
  "pow2 k = (if 0 \<le> k then 2 ^ nat k else 1 / 2 ^ nat (- k))"

definition round_half_even :: "rat \<Rightarrow> int" where
  \<comment> \<open>the nearest integer, the even one of the two when both are as near\<close>
  "round_half_even x =
     (let n = \<lfloor>x\<rfloor>; f = x - of_int n
      in if f < 1 / 2 then n else if 1 / 2 < f then n + 1 else if even n then n else n + 1)"

definition exponent2 :: "rat \<Rightarrow> int" where
  \<comment> \<open>for \<open>x \<noteq> 0\<close>, the exponent \<open>e\<close> with \<open>2^e \<le> |x| < 2^(e+1)\<close>\<close>
  "exponent2 x =
     (let (p, q) = quotient_of \<bar>x\<bar>; k = bitlen p - bitlen q
      in if pow2 k \<le> \<bar>x\<bar> then k else k - 1)"

definition round_double :: "rat \<Rightarrow> rat" where
  \<comment> \<open>the result of a float64 operation with the exact value \<open>x\<close>: the nearest number
      with a significand of 53 bits, ties to the even significand.  The exponent has no
      bounds here: a quotient of seconds is far from the ends of the float64 range.\<close>
  "round_double x =
     (if x = 0 then 0
      else let e = exponent2 x - 52
           in of_int (round_half_even (x / pow2 e)) * pow2 e)"

definition total_seconds :: "int \<Rightarrow> rat" where
  \<comment> \<open>\<open>.dt.total_seconds()\<close> of a difference of \<open>d\<close> seconds: the float quotient of the
      count of nanoseconds by the nanoseconds per second (the count is taken to fit its
      64 bits)\<close>
  "total_seconds d = round_double (round_double (of_int (d * 1000000000)) / 1000000000)"

definition hours_between :: "dttm option \<Rightarrow> dttm option \<Rightarrow> rat option" where
  \<comment> \<open>\<open>(b - a).dt.total_seconds() / 3600\<close> in float64, NaN when a side is NaT\<close>
  "hours_between a b =
     (case a of
        None \<Rightarrow> None
      | Some x \<Rightarrow>
          (case b of
             None \<Rightarrow> None
           | Some y \<Rightarrow> Some (round_double (total_seconds (y - x) / 3600))))"

definition less_than :: "rat option \<Rightarrow> rat \<Rightarrow> bool" where
  \<comment> \<open>the comparison \<open><\<close> of a float column with a number: False on NaN\<close>
  "less_than h gap_hours = (case h of None \<Rightarrow> False | Some x \<Rightarrow> x < gap_hours)"

definition icu_block_gaps :: "rat \<Rightarrow> icu_row list \<Rightarrow> gap_row list" where
  "icu_block_gaps gap_hours icu_adt_rows =
     (let icu_block = sort_encounter_rank (drop_duplicates icu_adt_rows);
          next_in = groupby_transform encounter_block (\<lambda>g. shift_neg1 (map in_dttm g)) icu_block
      in sort_encounter_rank
           (map2 (\<lambda>r n. assign_gap r n (hours_between (out_dttm r) n)
                           (less_than (hours_between (out_dttm r) n) gap_hours))
              icu_block next_in))"

subsection \<open>The groups\<close>

definition icu_block_groups :: "gap_row list \<Rightarrow> grp_row list" where
  \<comment> \<open>\<open>icu_group = index + 1\<close>, kept where the row is not linked, then filled backward and
      forward within the encounter\<close>
  "icu_block_groups df =
     (let icu_block = map (\<lambda>(i, r). assign_icu_group r (Some i)) (enumerate 1 df)
      in map2 (\<lambda>r g. r\<lparr>icu_group := g\<rparr>) icu_block
           (groupby_transform encounter_block
              (\<lambda>group. ffill (bfill (map (\<lambda>r. if \<not> linked6hrs r then icu_group r else None) group)))
              icu_block))"

definition icu_block :: "adt_row list \<Rightarrow> rat \<Rightarrow> error + grp_row list" where
  "icu_block adt_df gap_hours =
     (case icu_adt adt_df of
        Inl e \<Rightarrow> Inl e
      | Inr rows \<Rightarrow> Inr (icu_block_groups (icu_block_gaps gap_hours rows)))"

subsection \<open>Aggregation, merge and final rank\<close>

definition group_key :: "grp_row \<Rightarrow> (nat \<times> nat) option" where
  "group_key r = map_option (Pair (encounter_block r)) (icu_group r)"

definition icu_block2 :: "grp_row list \<Rightarrow> agg_row list" where
  \<comment> \<open>\<open>groupby(['encounter_block', 'icu_group']).agg(min, max, last).reset_index()\<close>\<close>
  "icu_block2 df =
     map (\<lambda>k. let members = filter (\<lambda>r. group_key r = Some k) df
               in \<lparr>agg_encounter_block = fst k, agg_icu_group = snd k,
                   agg_in_dttm = agg_min (map in_dttm members),
                   agg_out_dttm = agg_max (map out_dttm members),
                   agg_location_type = agg_last (map location_type members)\<rparr>)
         (sort (remdups (List.map_filter group_key df)))"

definition merge_left :: "grp_row list \<Rightarrow> agg_row list \<Rightarrow> stay_row list" where
  \<comment> \<open>\<open>pd.merge(left, right, on=["encounter_block", "icu_group"], how="left")\<close>: one row
      for every match of a left row, one row of nulls for a left row without a match\<close>
  "merge_left left right =
     concat (map (\<lambda>r.
       case filter (\<lambda>a. agg_encounter_block a = encounter_block r
                          \<and> Some (agg_icu_group a) = icu_group r) right of
         [] \<Rightarrow> [\<lparr>stay_encounter_block = encounter_block r, stay_icu_group = icu_group r,
                  stay_icu_rank = icu_rank r, stay_in_dttm = None, stay_out_dttm = None,
                  stay_location_type = None\<rparr>]
       | ms \<Rightarrow> map (\<lambda>a. \<lparr>stay_encounter_block = encounter_block r,
                          stay_icu_group = icu_group r, stay_icu_rank = icu_rank r,
                          stay_in_dttm = agg_in_dttm a, stay_out_dttm = agg_out_dttm a,
                          stay_location_type = agg_location_type a\<rparr>) ms) left)"

definition final_icu_rank :: "stay_row list \<Rightarrow> error + nat list" where
  "final_icu_rank df =
     astype_int
       (groupby_rank_dense (map stay_encounter_block df)
          (map (map_option Suc)
             (ngroup (\<lambda>r. map_option (Pair (stay_encounter_block r)) (stay_icu_group r)) df)))"

definition icu_adt_final :: "grp_row list \<Rightarrow> error + stay_row list" where
  "icu_adt_final blk =
     (let icu_df = merge_left blk (icu_block2 blk);
          sorted_df = sort_key (\<lambda>r. (stay_encounter_block r, stay_icu_rank r,
                                       nulls_last_nat (stay_icu_group r))) icu_df
      in case final_icu_rank sorted_df of
           Inl e \<Rightarrow> Inl e
         | Inr ranks \<Rightarrow> Inr (map2 (\<lambda>r k. r\<lparr>stay_icu_rank := k\<rparr>) sorted_df ranks))"

definition stitch_icu_stays :: "adt_row list \<Rightarrow> rat \<Rightarrow> error + stay_row list" where
  "stitch_icu_stays adt_df gap_hours =
     (case icu_block adt_df gap_hours of
        Inl e \<Rightarrow> Inl e
      | Inr blk \<Rightarrow> icu_adt_final blk)"

section \<open>Definitions used to state the properties\<close>






definition emitted :: "vent_row list \<Rightarrow> number \<Rightarrow> (nat \<times> dttm option) set" where
  \<comment> \<open>the pairs that the call returns; none when it raises\<close>
  "emitted vent w = (case find_intubation_times vent w of Inl e \<Rightarrow> {} | Inr out \<Rightarrow> set out)"


definition vent_boundary :: "vent_row list" where
  \<comment> \<open>one encounter: an IMV row, and exactly one hour later a row with the three settings\<close>
  "vent_boundary =
     [\<lparr>vent_row.encounter_block = 1, recorded_dttm = Some 0, device_category = Some ''IMV'',
       mode_category = None, fio2_set = None, peep_set = None\<rparr>,
      \<lparr>vent_row.encounter_block = 1, recorded_dttm = Some 3600, device_category = Some ''NIPPV'',
       mode_category = Some ''AC'', fio2_set = Some 40, peep_set = Some 5\<rparr>]"

definition count_below :: "'a::linorder set \<Rightarrow> 'a \<Rightarrow> nat" where
  \<comment> \<open>the number of elements of \<open>S\<close> below \<open>x\<close>\<close>
  "count_below S x = card {y \<in> S. y < x}"

definition dense_rank :: "('r \<Rightarrow> nat) \<Rightarrow> ('r \<Rightarrow> 'v::linorder option) \<Rightarrow> 'r list \<Rightarrow> 'r \<Rightarrow> nat" where
  \<comment> \<open>1 + the number of distinct values of the row's encounter below the row's value\<close>
  "dense_rank enc val df r =
     Suc (count_below (the ` val ` {r' \<in> set df. enc r' = enc r}) (the (val r)))"

definition seeds :: "nat list \<Rightarrow> bool list \<Rightarrow> nat option list" where
  \<comment> \<open>\<open>group.where(~linked)\<close>: the own id where the row is not linked, a null elsewhere\<close>
  "seeds ids links = map2 (\<lambda>i l. if \<not> l then Some i else None) ids links"

definition encounter_groups :: "nat list \<Rightarrow> bool list \<Rightarrow> nat option list" where
  \<comment> \<open>the group column of one encounter, from the ids and the link flags of its rows\<close>
  "encounter_groups ids links = ffill (bfill (seeds ids links))"

fun run_ids :: "nat list \<Rightarrow> bool list \<Rightarrow> nat list" where
  \<comment> \<open>every row gets the id of the first row at or after it that is not linked\<close>
  "run_ids (i # ids) (l # ls) =
     (if l \<and> ids \<noteq> [] \<and> ls \<noteq> [] then hd (run_ids ids ls) else i) # run_ids ids ls"
| "run_ids [] ls = []"
| "run_ids ids [] = []"

fun forward_segmentation :: "nat \<Rightarrow> bool list \<Rightarrow> nat list" where
  \<comment> \<open>the forward run-length segmentation of the specification, over the rows of one
      encounter in rank order: the first row starts group \<open>g\<close>; the group id goes on to
      the next row while the current row is linked, otherwise the next row starts a new
      group\<close>
  "forward_segmentation g [] = []"
| "forward_segmentation g (l # ls) = g # forward_segmentation (if l then g else Suc g) ls"

definition gap_columns :: "rat \<Rightarrow> icu_row \<Rightarrow> dttm option \<Rightarrow> gap_row" where
  \<comment> \<open>a row with its gap columns, from the \<open>in_dttm\<close> of the next row of the encounter\<close>
  "gap_columns gap_hours r n =
     assign_gap r n (hours_between (out_dttm r) n)
       (less_than (hours_between (out_dttm r) n) gap_hours)"

definition encounter_gaps :: "rat \<Rightarrow> icu_row list \<Rightarrow> gap_row list" where
  \<comment> \<open>the rows of one encounter with their gap columns\<close>
  "encounter_gaps gap_hours segs =
     map2 (gap_columns gap_hours) segs (shift_neg1 (map in_dttm segs))"

definition encounter_rows :: "rat \<Rightarrow> nat list \<Rightarrow> icu_row list \<Rightarrow> grp_row list" where
  \<comment> \<open>the rows of one encounter with their gap columns and their group, from the
      encounter's rows in rank order and their ids (index + 1)\<close>
  "encounter_rows gap_hours ids segs =
     map2 assign_icu_group (encounter_gaps gap_hours segs)
       (encounter_groups ids (map linked6hrs (encounter_gaps gap_hours segs)))"

definition segment ::
  "nat \<Rightarrow> dttm option \<Rightarrow> dttm option \<Rightarrow> string option \<Rightarrow> string option \<Rightarrow> adt_row" where
  \<comment> \<open>an ADT row of patient 1, hospitalization 1\<close>
  "segment e a b c t =
     \<lparr>patient_id = 1, encounter_block = e, hospitalization_id = 1, in_dttm = a, out_dttm = b,
      location_category = c, location_type = t\<rparr>"

definition scenario_B :: "adt_row list" where
  \<comment> \<open>encounter 1: ICU from 08:00 to 10:00 and from 10:05 to 12:00\<close>
  "scenario_B =
     [segment 1 (Some 28800) (Some 36000) (Some ''ICU'') (Some ''MICU''),
      segment 1 (Some 36300) (Some 43200) (Some ''icu'') (Some ''SICU'')]"

definition scenario_B_block :: "grp_row list" where
  "scenario_B_block =
     [\<lparr>patient_id = 1, encounter_block = 1, hospitalization_id = 1, in_dttm = Some 28800,
       out_dttm = Some 36000, location_category = Some ''ICU'', location_type = Some ''MICU'',
       icu_rank = 1, next_in_dttm = Some 36300, out_to_next_icu_hrs = Some (6004799503160661 / 72057594037927936),
       linked6hrs = True, icu_group = Some 2\<rparr>,
      \<lparr>patient_id = 1, encounter_block = 1, hospitalization_id = 1, in_dttm = Some 36300,
       out_dttm = Some 43200, location_category = Some ''icu'', location_type = Some ''SICU'',
       icu_rank = 2, next_in_dttm = None, out_to_next_icu_hrs = None,
       linked6hrs = False, icu_group = Some 2\<rparr>]"

definition members :: "grp_row list \<Rightarrow> nat \<Rightarrow> nat option \<Rightarrow> grp_row list" where
  \<comment> \<open>the rows of the block that belong to group \<open>g\<close> of encounter \<open>e\<close>, in row order\<close>
  "members blk e g = filter (\<lambda>r. encounter_block r = e \<and> icu_group r = g) blk"

definition final_row :: "grp_row list \<Rightarrow> grp_row \<Rightarrow> stay_row" where
  \<comment> \<open>the output row of a row of the block: its group's aggregates and the dense rank of
      its group within the encounter\<close>
  "final_row blk b =
     \<lparr>stay_encounter_block = encounter_block b,
      stay_icu_group = icu_group b,
      stay_icu_rank = dense_rank encounter_block icu_group blk b,
      stay_in_dttm = agg_min (map in_dttm (members blk (encounter_block b) (icu_group b))),
      stay_out_dttm = agg_max (map out_dttm (members blk (encounter_block b) (icu_group b))),
      stay_location_type =
        agg_last (map location_type (members blk (encounter_block b) (icu_group b)))\<rparr>"

definition scenario_B_stays :: "stay_row list" where
  "scenario_B_stays =
     [\<lparr>stay_encounter_block = 1, stay_icu_group = Some 2, stay_icu_rank = 1,
       stay_in_dttm = Some 28800, stay_out_dttm = Some 43200,
       stay_location_type = Some ''SICU''\<rparr>,
      \<lparr>stay_encounter_block = 1, stay_icu_group = Some 2, stay_icu_rank = 1,
       stay_in_dttm = Some 28800, stay_out_dttm = Some 43200,
       stay_location_type = Some ''SICU''\<rparr>]"

definition nested_adt :: "adt_row list" where
  \<comment> \<open>encounter 1: a stay of 100 hours, a stay from hour 10 to hour 20 inside it, and a
      stay from hour 50 to hour 60, which starts 30 hours after the second one ends\<close>
  "nested_adt =
     [segment 1 (Some 0) (Some 360000) (Some ''ICU'') (Some ''MICU''),
      segment 1 (Some 36000) (Some 72000) (Some ''Stepdown'') (Some ''CVICU''),
      segment 1 (Some 180000) (Some 216000) (Some ''ICU'') (Some ''SICU'')]"

definition nested_stays :: "stay_row list" where
  "nested_stays =
     [\<lparr>stay_encounter_block = 1, stay_icu_group = Some 2, stay_icu_rank = 1,
       stay_in_dttm = Some 0, stay_out_dttm = Some 360000,
       stay_location_type = Some ''CVICU''\<rparr>,
      \<lparr>stay_encounter_block = 1, stay_icu_group = Some 2, stay_icu_rank = 1,
       stay_in_dttm = Some 0, stay_out_dttm = Some 360000,
       stay_location_type = Some ''CVICU''\<rparr>,
      \<lparr>stay_encounter_block = 1, stay_icu_group = Some 3, stay_icu_rank = 2,
       stay_in_dttm = Some 180000, stay_out_dttm = Some 216000,
       stay_location_type = Some ''SICU''\<rparr>]"

definition one_row_per_group :: "stay_row list \<Rightarrow> bool" where
  \<comment> \<open>no two rows of the table share \<open>(encounter_block, icu_group)\<close>\<close>
  "one_row_per_group out \<longleftrightarrow>
     distinct (map (\<lambda>r. (stay_encounter_block r, stay_icu_group r)) out)"

definition increasing_disjoint :: "stay_row list \<Rightarrow> bool" where
  \<comment> \<open>within an encounter, a row of higher rank starts later than a row of lower rank
      starts and ends\<close>
  "increasing_disjoint out \<longleftrightarrow>
     (\<forall>r1\<in>set out. \<forall>r2\<in>set out.
        stay_encounter_block r1 = stay_encounter_block r2 \<and> stay_icu_rank r1 < stay_icu_rank r2
        \<longrightarrow> (\<exists>a b c. stay_in_dttm r1 = Some a \<and> stay_out_dttm r1 = Some b
                     \<and> stay_in_dttm r2 = Some c \<and> a < c \<and> b < c))"

definition uncategorised :: adt_row where
  \<comment> \<open>a row without a location category\<close>
  "uncategorised = segment 1 (Some 0) (Some 3600) None (Some ''WARD'')"

definition nested_block :: "grp_row list" where
  \<comment> \<open>the block of the nested example: the first two segments are linked\<close>
  "nested_block =
     [\<lparr>patient_id = 1, encounter_block = 1, hospitalization_id = 1,
       in_dttm = Some 0, out_dttm = Some 360000,
       location_category = Some ''ICU'', location_type = Some ''MICU'',
       icu_rank = 1, next_in_dttm = Some 36000,
       out_to_next_icu_hrs = Some (- 90), linked6hrs = True, icu_group = Some 2\<rparr>,
      \<lparr>patient_id = 1, encounter_block = 1, hospitalization_id = 1,
       in_dttm = Some 36000, out_dttm = Some 72000,
       location_category = Some ''Stepdown'', location_type = Some ''CVICU'',
       icu_rank = 2, next_in_dttm = Some 180000,
       out_to_next_icu_hrs = Some 30, linked6hrs = False, icu_group = Some 2\<rparr>,
      \<lparr>patient_id = 1, encounter_block = 1, hospitalization_id = 1,
       in_dttm = Some 180000, out_dttm = Some 216000,
       location_category = Some ''ICU'', location_type = Some ''SICU'',
       icu_rank = 3, next_in_dttm = None,
       out_to_next_icu_hrs = None, linked6hrs = False, icu_group = Some 3\<rparr>]"

definition location_type_of_latest_out :: "grp_row list \<Rightarrow> string option" where
  \<comment> \<open>the specification's choice for a group with members \<open>ms\<close> in rank order: the
      \<open>location_type\<close> of the member with the latest \<open>out_dttm\<close>, the last such member
      when several end at that time\<close>
  "location_type_of_latest_out ms =
     (case rev (filter (\<lambda>m. out_dttm m = agg_max (map out_dttm ms)) ms) of
        [] \<Rightarrow> None
      | m # _ \<Rightarrow> location_type m)"

definition open_stay :: "adt_row list" where
  \<comment> \<open>encounter 1: an ICU segment from 00:00 without an end, and one from 01:00 to 02:00\<close>
  "open_stay =
     [segment 1 (Some 0) None (Some ''ICU'') (Some ''MICU''),
      segment 1 (Some 3600) (Some 7200) (Some ''ICU'') (Some ''SICU'')]"

definition open_stay_stays :: "stay_row list" where
  "open_stay_stays =
     [\<lparr>stay_encounter_block = 1, stay_icu_group = Some 1, stay_icu_rank = 1,
       stay_in_dttm = Some 0, stay_out_dttm = None, stay_location_type = Some ''MICU''\<rparr>,
      \<lparr>stay_encounter_block = 1, stay_icu_group = Some 2, stay_icu_rank = 2,
       stay_in_dttm = Some 3600, stay_out_dttm = Some 7200,
       stay_location_type = Some ''SICU''\<rparr>]"

definition closed_stay_stays :: "stay_row list" where
  "closed_stay_stays =
     [\<lparr>stay_encounter_block = 1, stay_icu_group = Some 1, stay_icu_rank = 1,
       stay_in_dttm = Some 3600, stay_out_dttm = Some 7200,
       stay_location_type = Some ''SICU''\<rparr>]"

definition timestamped :: "adt_row \<Rightarrow> bool" where
  "timestamped r \<longleftrightarrow> in_dttm r \<noteq> None \<and> out_dttm r \<noteq> None"

definition null_rows_excluded :: "adt_row list \<Rightarrow> rat \<Rightarrow> bool" where
  \<comment> \<open>the rows with a null \<open>in_dttm\<close> or \<open>out_dttm\<close> contribute nothing to the output\<close>
  "null_rows_excluded adt_df gap_hours \<longleftrightarrow>
     stitch_icu_stays adt_df gap_hours = stitch_icu_stays (filter timestamped adt_df) gap_hours"

definition open_stay_block :: "grp_row list" where
  \<comment> \<open>the block of \<open>open_stay\<close>: the segment without an end is not linked\<close>
  "open_stay_block =
     [\<lparr>patient_id = 1, encounter_block = 1, hospitalization_id = 1,
       in_dttm = Some 0, out_dttm = None,
       location_category = Some ''ICU'', location_type = Some ''MICU'',
       icu_rank = 1, next_in_dttm = Some 3600, out_to_next_icu_hrs = None,
       linked6hrs = False, icu_group = Some 1\<rparr>,
      \<lparr>patient_id = 1, encounter_block = 1, hospitalization_id = 1,
       in_dttm = Some 3600, out_dttm = Some 7200,
       location_category = Some ''ICU'', location_type = Some ''SICU'',
       icu_rank = 2, next_in_dttm = None, out_to_next_icu_hrs = None,
       linked6hrs = False, icu_group = Some 2\<rparr>]"

definition unstarted_stay :: "adt_row list" where
  \<comment> \<open>an ICU segment without a start\<close>
  "unstarted_stay = [segment 1 None (Some 3600) (Some ''ICU'') (Some ''MICU'')]"

definition segments_well_formed :: "adt_row list \<Rightarrow> bool" where
  \<comment> \<open>every ICU or stepdown row has both timestamps, and does not end before it starts\<close>
  "segments_well_formed adt_df \<longleftrightarrow>
     (\<forall>r\<in>set (icu_adt_df adt_df).
        case in_dttm r of
          None \<Rightarrow> False
        | Some a \<Rightarrow> (case out_dttm r of None \<Rightarrow> False | Some b \<Rightarrow> a \<le> b))"

definition segments_not_nested :: "adt_row list \<Rightarrow> bool" where
  \<comment> \<open>within an encounter, an ICU or stepdown row that starts no later than another one
      ends no later\<close>
  "segments_not_nested adt_df \<longleftrightarrow>
     (\<forall>r\<in>set (icu_adt_df adt_df). \<forall>s\<in>set (icu_adt_df adt_df).
        encounter_block r = encounter_block s \<and> the (in_dttm r) \<le> the (in_dttm s)
        \<longrightarrow> the (out_dttm r) \<le> the (out_dttm s))"

definition two_stays :: "adt_row list" where
  \<comment> \<open>encounter 1: ICU from 00:00 to 01:00 and from 10:00 to 20:00\<close>
  "two_stays =
     [segment 1 (Some 0) (Some 3600) (Some ''ICU'') (Some ''MICU''),
      segment 1 (Some 36000) (Some 72000) (Some ''ICU'') (Some ''SICU'')]"

definition two_stays_out :: "stay_row list" where
  "two_stays_out =
     [\<lparr>stay_encounter_block = 1, stay_icu_group = Some 1, stay_icu_rank = 1,
       stay_in_dttm = Some 0, stay_out_dttm = Some 3600, stay_location_type = Some ''MICU''\<rparr>,
      \<lparr>stay_encounter_block = 1, stay_icu_group = Some 2, stay_icu_rank = 2,
       stay_in_dttm = Some 36000, stay_out_dttm = Some 72000,
       stay_location_type = Some ''SICU''\<rparr>]"


definition float_tenth :: rat where
  \<comment> \<open>the float \<open>0.1\<close>\<close>
  "float_tenth = 3602879701896397 / 36028797018963968"

definition boundary_gap :: "adt_row list" where
  \<comment> \<open>encounter 1: ICU from 00:00 to 01:00 and from 01:06 to 02:00\<close>
  "boundary_gap =
     [segment 1 (Some 0) (Some 3600) (Some ''ICU'') (Some ''MICU''),
      segment 1 (Some 3960) (Some 7200) (Some ''ICU'') (Some ''SICU'')]"

definition boundary_gap_block :: "grp_row list" where
  \<comment> \<open>the block of \<open>boundary_gap\<close> for \<open>gap_hours = 0.1\<close>: the gap is the float \<open>0.1\<close>\<close>
  "boundary_gap_block =
     [\<lparr>patient_id = 1, encounter_block = 1, hospitalization_id = 1,
       in_dttm = Some 0, out_dttm = Some 3600,
       location_category = Some ''ICU'', location_type = Some ''MICU'',
       icu_rank = 1, next_in_dttm = Some 3960,
       out_to_next_icu_hrs = Some (3602879701896397 / 36028797018963968),
       linked6hrs = False, icu_group = Some 1\<rparr>,
      \<lparr>patient_id = 1, encounter_block = 1, hospitalization_id = 1,
       in_dttm = Some 3960, out_dttm = Some 7200,
       location_category = Some ''ICU'', location_type = Some ''SICU'',
       icu_rank = 2, next_in_dttm = None, out_to_next_icu_hrs = None,
       linked6hrs = False, icu_group = Some 2\<rparr>]"

definition touching :: "adt_row list" where
  \<comment> \<open>encounter 1: ICU from 00:00 to 01:00 and from 01:00 to 02:00\<close>
  "touching =
     [segment 1 (Some 0) (Some 3600) (Some ''ICU'') (Some ''MICU''),
      segment 1 (Some 3600) (Some 7200) (Some ''ICU'') (Some ''SICU'')]"

definition touching_block :: "grp_row list" where
  "touching_block =
     [\<lparr>patient_id = 1, encounter_block = 1, hospitalization_id = 1,
       in_dttm = Some 0, out_dttm = Some 3600,
       location_category = Some ''ICU'', location_type = Some ''MICU'',
       icu_rank = 1, next_in_dttm = Some 3600,
       out_to_next_icu_hrs = Some 0, linked6hrs = True, icu_group = Some 2\<rparr>,
      \<lparr>patient_id = 1, encounter_block = 1, hospitalization_id = 1,
       in_dttm = Some 3600, out_dttm = Some 7200,
       location_category = Some ''ICU'', location_type = Some ''SICU'',
       icu_rank = 2, next_in_dttm = None, out_to_next_icu_hrs = None,
       linked6hrs = False, icu_group = Some 2\<rparr>]"

section \<open>Properties of the window scanner\<close>

lemma fold_max_flag:
  "fold max (map (\<lambda>x. if P x then 1 else 0) xs) (a::nat) =
     (if (\<exists>x\<in>set xs. P x) then max 1 a else a)"
  by (induction xs arbitrary: a) auto

lemma sql_max_flag:
  "sql_max (map (\<lambda>x. if P x then 1 else 0) xs) = Some 1 \<longleftrightarrow> (\<exists>x\<in>set xs. P x)"
  by (cases xs) (auto simp: fold_max_flag)

lemma sql_max_flag_Suc:
  "sql_max (map (\<lambda>x. if P x then 1 else 0) xs) = Some (Suc 0) \<longleftrightarrow> (\<exists>x\<in>set xs. P x)"
  using sql_max_flag[of P xs] by simp

lemma set_frame: "set (frame w vent r) = {x \<in> set vent. in_frame w r x}"
  by (auto simp: frame_def)

lemma qualifying_rows:
  "map (\<lambda>t. (tw_encounter_block t, tw_recorded_dttm t))
     (filter (\<lambda>t. has_imv_in_window t = Some 1
                       \<and> has_mode_in_window t = Some 1
                       \<and> has_fio2_in_window t = Some 1
                       \<and> has_peep_in_window t = Some 1)
             (time_windows w vent)) =
   map (\<lambda>r. (vent_row.encounter_block r, recorded_dttm r))
     (filter (\<lambda>r. (\<exists>x\<in>set vent. in_frame w r x \<and> device_category x = Some ''IMV'')
        \<and> (\<exists>x\<in>set vent. in_frame w r x \<and> mode_category x \<noteq> None)
        \<and> (\<exists>x\<in>set vent. in_frame w r x \<and> fio2_set x \<noteq> None)
        \<and> (\<exists>x\<in>set vent. in_frame w r x \<and> peep_set x \<noteq> None)) vent)"
  unfolding time_windows_def filter_map comp_def
  by (simp add: comp_def sql_max_flag_Suc set_frame Bex_def del: not_None_eq)

lemma execute_query_mem:
  "(e, t) \<in> set (execute_query vent w) \<longleftrightarrow>
     (\<exists>r\<in>set vent. vent_row.encounter_block r = e \<and> recorded_dttm r = t
        \<and> (\<exists>x\<in>set vent. in_frame w r x \<and> device_category x = Some ''IMV'')
        \<and> (\<exists>x\<in>set vent. in_frame w r x \<and> mode_category x \<noteq> None)
        \<and> (\<exists>x\<in>set vent. in_frame w r x \<and> fio2_set x \<noteq> None)
        \<and> (\<exists>x\<in>set vent. in_frame w r x \<and> peep_set x \<noteq> None))"
  unfolding execute_query_def qualifying_rows
  by (auto simp del: not_None_eq)

lemma emitted_eq:
  "emitted vent w
     = (case interval_micros w of
          Inl e \<Rightarrow> {}
        | Inr micros \<Rightarrow>
            if frame_bounds_ok micros vent then set (execute_query vent micros) else {})"
  by (simp add: emitted_def find_intubation_times_def split: sum.splits)



lemma in_frame_mono:
  "w1 \<le> w2 \<Longrightarrow> in_frame w1 r x \<Longrightarrow> in_frame w2 r x"
  unfolding in_frame_def by (auto split: option.splits)




lemma find_intubation_times_Inr:
  "find_intubation_times vent w = Inr out
     \<longleftrightarrow> (\<exists>micros. interval_micros w = Inr micros \<and> frame_bounds_ok micros vent
                    \<and> out = execute_query vent micros)"
  by (auto simp: find_intubation_times_def split: sum.splits)

lemma find_intubation_times_refused:
  "interval_micros w = Inl err \<Longrightarrow> find_intubation_times vent w = Inl err"
  by (simp add: find_intubation_times_def)


lemma frame_bounds_ok_mono:
  assumes "frame_bounds_ok m2 vent" and "0 \<le> m1" and "m1 \<le> m2"
  shows "frame_bounds_ok m1 vent"
  using assms unfolding frame_bounds_ok_def by (force split: option.splits)

lemma frame_bounds_ok_filter:
  "frame_bounds_ok micros (filter (\<lambda>x. recorded_dttm x \<noteq> None) vent)
     = frame_bounds_ok micros vent"
  unfolding frame_bounds_ok_def by (auto split: option.splits)


lemma interval_micros_int_large:
  assumes "2562047788 < n"
  shows "interval_micros (PyInt n) = Inl IntervalError"
proof -
  have r: "round (rat_of_int n * 3600000000) = n * 3600000000"
    using round_of_int[of "n * 3600000000", where ?'a = rat] by simp
  from assms have "\<not> \<bar>n * 3600000000\<bar> \<le> 9223372036854775807" by simp
  then show ?thesis by (simp add: interval_micros_def printed_hours_def r)
qed









lemma vent_boundary_eval:
  "find_intubation_times vent_boundary (PyInt 1) = Inr [(1, Some 0), (1, Some 3600)]"
  by code_simp




lemma interval_micros_hours:
  assumes "interval_micros w = Inr micros"
  shows "micros = round (hours w * 3600000000)"
  using assms
  by (cases w) (auto simp: interval_micros_def printed_hours_def hours_def split: if_splits)

lemma vent_boundary_large: "(1, Some 0) \<notin> emitted vent_boundary (PyInt 3000000000)"
  by (simp add: emitted_eq interval_micros_int_large)

lemma vent_boundary_one: "(1, Some 0) \<in> emitted vent_boundary (PyInt 1)"
  by (simp add: emitted_def vent_boundary_eval)

text \<open>
  C8, as stated, fails: with a window of one hour the call returns the pair of the IMV
  row of the boundary table; with a window of 3000000000 hours, which is more than an
  interval can hold, the call raises and returns no pair.
\<close>

theorem window_monotone_counterexample:
  "(1, Some 0) \<in> emitted vent_boundary (PyInt 1)
   \<and> 0 < hours (PyInt 1)
   \<and> hours (PyInt 1) \<le> hours (PyInt 3000000000)
   \<and> find_intubation_times vent_boundary (PyInt 3000000000) = Inl IntervalError
   \<and> (1, Some 0) \<notin> emitted vent_boundary (PyInt 3000000000)"
  using vent_boundary_one vent_boundary_large
  by (simp add: hours_def find_intubation_times_refused interval_micros_int_large)

text \<open>
  C8, amended.  For positive windows \<open>w1 \<le> w2\<close> such that the call with \<open>w2\<close> returns,
  every pair returned with \<open>w1\<close> is returned with \<open>w2\<close>.
\<close>

theorem find_intubation_times_mono:
  assumes "0 < hours w1" and "hours w1 \<le> hours w2"
    and "find_intubation_times vent w2 = Inr out2"
  shows "emitted vent w1 \<subseteq> set out2"
proof (cases "interval_micros w1")
  case (Inl err)
  then show ?thesis by (simp add: emitted_eq)
next
  case (Inr m1)
  from assms(3) obtain m2 where m2: "interval_micros w2 = Inr m2"
    and ok2: "frame_bounds_ok m2 vent"
    and out2: "out2 = execute_query vent m2"
    unfolding find_intubation_times_Inr by blast
  have "hours w1 * 3600000000 \<le> hours w2 * 3600000000" using assms(2) by simp
  then have "round (hours w1 * 3600000000) \<le> round (hours w2 * 3600000000)"
    by (rule round_mono)
  then have le: "m1 \<le> m2"
    unfolding interval_micros_hours[OF Inr] interval_micros_hours[OF m2] .
  have "set (execute_query vent m1) \<subseteq> set (execute_query vent m2)"
  proof
    fix p
    assume p: "p \<in> set (execute_query vent m1)"
    obtain e t where [simp]: "p = (e, t)" by (cases p)
    from p show "p \<in> set (execute_query vent m2)"
      using in_frame_mono[OF le]
      by (simp add: execute_query_mem del: not_None_eq) blast
  qed
  then show ?thesis unfolding out2 by (simp add: emitted_eq Inr)
qed

lemma vent_boundary_two:
  "find_intubation_times vent_boundary (PyInt 2) = Inr [(1, Some 0), (1, Some 3600)]"
  by code_simp

theorem find_intubation_times_mono_witness:
  "0 < hours (PyInt 1) \<and> hours (PyInt 1) \<le> hours (PyInt 2)
   \<and> find_intubation_times vent_boundary (PyInt 2) = Inr [(1, Some 0), (1, Some 3600)]
   \<and> (1, Some 0) \<in> emitted vent_boundary (PyInt 1)
   \<and> emitted vent_boundary (PyInt 1) \<subseteq> set [(1, Some 0), (1, Some 3600)]"
proof -
  have a: "0 < hours (PyInt 1)" and b: "hours (PyInt 1) \<le> hours (PyInt 2)"
    by (simp_all add: hours_def)
  from find_intubation_times_mono[OF a b vent_boundary_two] a b vent_boundary_two
    vent_boundary_one
  show ?thesis by simp
qed

section \<open>Counting the elements below a value\<close>

lemma count_below_mono:
  "finite S \<Longrightarrow> x \<le> y \<Longrightarrow> count_below S x \<le> count_below S y"
  unfolding count_below_def by (intro card_mono) auto

lemma count_below_strict:
  "finite S \<Longrightarrow> x \<in> S \<Longrightarrow> x < y \<Longrightarrow> count_below S x < count_below S y"
  unfolding count_below_def by (intro psubset_card_mono) auto

lemma count_below_less_iff:
  assumes "finite S" "x \<in> S" "y \<in> S"
  shows "count_below S x < count_below S y \<longleftrightarrow> x < y"
proof
  assume "count_below S x < count_below S y"
  then have "\<not> y \<le> x" using count_below_mono[OF assms(1), of y x] by auto
  then show "x < y" by simp
next
  assume "x < y" then show "count_below S x < count_below S y"
    using assms by (simp add: count_below_strict)
qed

lemma count_below_eq_iff:
  assumes "finite S" "x \<in> S" "y \<in> S"
  shows "count_below S x = count_below S y \<longleftrightarrow> x = y"
  using count_below_less_iff[OF assms] count_below_less_iff[OF assms(1,3,2)]
  by (metis less_irrefl not_less_iff_gr_or_eq)

lemma count_below_inj_on: "finite S \<Longrightarrow> inj_on (count_below S) S"
  by (auto simp: inj_on_def count_below_eq_iff)

lemma count_below_bound: "finite S \<Longrightarrow> x \<in> S \<Longrightarrow> count_below S x < card S"
  unfolding count_below_def by (intro psubset_card_mono) auto

lemma count_below_image:
  assumes "finite S"
  shows "count_below S ` S = {0..<card S}"
proof (rule card_subset_eq)
  show "finite {0..<card S}" by simp
  show "count_below S ` S \<subseteq> {0..<card S}"
    using count_below_bound[OF assms] by auto
  show "card (count_below S ` S) = card {0..<card S}"
    by (simp add: card_image count_below_inj_on[OF assms])
qed

lemma count_below_image_embed:
  \<comment> \<open>an order embedding does not change the count\<close>
  assumes fin: "finite S" and x: "x \<in> S"
    and emb: "\<And>a b. a \<in> S \<Longrightarrow> b \<in> S \<Longrightarrow> f a < f b \<longleftrightarrow> a < b"
  shows "count_below (f ` S) (f x) = count_below S x"
proof -
  have inj: "inj_on f S"
  proof (rule inj_onI)
    fix a b assume "a \<in> S" "b \<in> S" "f a = f b"
    then show "a = b" using emb[of a b] emb[of b a] by (metis less_irrefl neqE)
  qed
  have "{y \<in> f ` S. y < f x} = f ` {a \<in> S. a < x}"
    using emb x by auto
  moreover have "inj_on f {a \<in> S. a < x}"
    by (rule inj_on_subset[OF inj]) auto
  ultimately show ?thesis by (simp add: count_below_def card_image)
qed

lemma set_map_filter:
  "set (List.map_filter g xs) = {y. \<exists>x\<in>set xs. g x = Some y}"
  by (induction xs) (auto split: option.splits)

lemma length_filter_remdups:
  "length (filter P (remdups xs)) = card {x \<in> set xs. P x}"
proof -
  have "{x. P x} \<inter> set xs = {x \<in> set xs. P x}" by auto
  then show ?thesis by (simp add: distinct_length_filter)
qed

lemma length_remdups_filter:
  "length (remdups (filter P xs)) = card {x \<in> set xs. P x}"
  by (simp add: length_remdups_card_conv)

section \<open>The dense rank within an encounter\<close>

lemma zip_map_same: "zip (map f xs) (map g xs) = map (\<lambda>x. (f x, g x)) xs"
  by (induction xs) auto

lemma dense_rank_less_iff:
  assumes "r \<in> set df" "r' \<in> set df" "enc r = enc r'"
  shows "dense_rank enc val df r < dense_rank enc val df r' \<longleftrightarrow> the (val r) < the (val r')"
  using assms unfolding dense_rank_def
  by (simp add: count_below_less_iff)

lemma dense_rank_eq_iff:
  assumes "r \<in> set df" "r' \<in> set df" "enc r = enc r'"
  shows "dense_rank enc val df r = dense_rank enc val df r' \<longleftrightarrow> the (val r) = the (val r')"
  using assms unfolding dense_rank_def
  by (simp add: count_below_eq_iff)

lemma dense_rank_image:
  "dense_rank enc val df ` {r \<in> set df. enc r = e}
     = {1..card (the ` val ` {r \<in> set df. enc r = e})}"
proof -
  let ?R = "{r \<in> set df. enc r = e}"
  let ?V = "the ` val ` ?R"
  have fin: "finite ?V" by simp
  have "dense_rank enc val df ` ?R = (\<lambda>r. Suc (count_below ?V (the (val r)))) ` ?R"
    by (rule image_cong) (auto simp: dense_rank_def)
  also have "\<dots> = Suc ` count_below ?V ` ?V"
    by (simp add: image_image)
  also have "\<dots> = Suc ` {0..<card ?V}"
    by (simp only: count_below_image[OF fin])
  also have "\<dots> = {1..card ?V}"
    by (simp add: atLeastLessThanSuc_atLeastAtMost)
  finally show ?thesis .
qed

lemma ngroup_count_below:
  "ngroup key df =
     map (\<lambda>r. map_option (count_below {k. \<exists>r'\<in>set df. key r' = Some k}) (key r)) df"
proof -
  have "length (filter (\<lambda>k'. k' < k) (remdups (List.map_filter key df)))
          = count_below {k. \<exists>r'\<in>set df. key r' = Some k} k" for k
    by (simp only: length_filter_remdups set_map_filter count_below_def mem_Collect_eq)
  then show ?thesis
    unfolding ngroup_def
    by (intro map_cong refl) (simp split: option.split)
qed

lemma groupby_rank_dense_count_below:
  "groupby_rank_dense (map enc df) (map h df) =
     map (\<lambda>r. map_option
            (\<lambda>x. Suc (count_below {y. \<exists>r'\<in>set df. enc r' = enc r \<and> h r' = Some y} x))
            (h r)) df"
proof -
  have grp: "set (List.map_filter (\<lambda>(k', v'). if k' = e then v' else None)
                (map (\<lambda>r. (enc r, h r)) df))
             = {y. \<exists>r'\<in>set df. enc r' = e \<and> h r' = Some y}" for e
    by (induction df) (auto split: option.splits)
  have "length (remdups (filter (\<lambda>y. y < x)
           (List.map_filter (\<lambda>(k', v'). if k' = e then v' else None)
              (map (\<lambda>r. (enc r, h r)) df))))
        = count_below {y. \<exists>r'\<in>set df. enc r' = e \<and> h r' = Some y} x" for e x
    by (simp only: length_remdups_filter grp count_below_def)
  then show ?thesis
    unfolding groupby_rank_dense_def zip_map_same
    by (simp add: comp_def split: option.split)
qed

lemma astype_int_Inr:
  "astype_int col = Inr ranks \<longleftrightarrow> None \<notin> set col \<and> ranks = map the col"
  by (auto simp: astype_int_def)


lemma dense_rank_pipeline:
  fixes enc :: "'r \<Rightarrow> nat" and val :: "'r \<Rightarrow> 'v::linorder option"
  assumes ok: "astype_int (groupby_rank_dense (map enc df)
                 (map (map_option Suc)
                    (ngroup (\<lambda>r. map_option (Pair (enc r)) (val r)) df))) = Inr ranks"
  shows "\<forall>r\<in>set df. val r \<noteq> None" and "ranks = map (dense_rank enc val df) df"
proof -
  define key where "key = (\<lambda>r. map_option (Pair (enc r)) (val r))"
  define K where "K = {k. \<exists>r'\<in>set df. key r' = Some k}"
  define h where "h = (\<lambda>r. map_option (\<lambda>k. Suc (count_below K k)) (key r))"
  define Y where "Y = (\<lambda>e. {y. \<exists>r'\<in>set df. enc r' = e \<and> h r' = Some y})"
  define res where "res = (\<lambda>r. map_option (\<lambda>x. Suc (count_below (Y (enc r)) x)) (h r))"
  have ng: "map (map_option Suc) (ngroup key df) = map h df"
    by (simp add: ngroup_count_below h_def K_def option.map_comp comp_def)
  have rk: "groupby_rank_dense (map enc df) (map h df) = map res df"
    unfolding res_def Y_def by (rule groupby_rank_dense_count_below)
  from ok have "astype_int (map res df) = Inr ranks"
    unfolding key_def[symmetric] ng rk .
  then have none: "None \<notin> set (map res df)" and ranks: "ranks = map the (map res df)"
    by (simp_all add: astype_int_Inr)
  have some: "val r \<noteq> None" if "r \<in> set df" for r
  proof -
    from none that have "res r \<noteq> None" by force
    then show ?thesis by (auto simp: res_def h_def key_def)
  qed
  then show "\<forall>r\<in>set df. val r \<noteq> None" by blast
  have finK: "finite K"
  proof (rule finite_subset)
    show "K \<subseteq> the ` key ` set df" unfolding K_def by force
  qed simp
  have "the (res r) = dense_rank enc val df r" if r: "r \<in> set df" for r
  proof -
    define V where "V = the ` val ` {r' \<in> set df. enc r' = enc r}"
    define f where "f = (\<lambda>v. Suc (count_below K (enc r, v)))"
    from some[OF r] obtain v where v: "val r = Some v" by auto
    have hr: "h r' = Some (f (the (val r')))" if "r' \<in> set df" "enc r' = enc r" for r'
      using some[OF that(1)] that(2) by (auto simp: h_def key_def f_def)
    have Yeq: "Y (enc r) = f ` V"
      unfolding Y_def V_def using hr by (force simp: image_iff)
    have inK: "(enc r, a) \<in> K" if "a \<in> V" for a
      using that some unfolding V_def K_def key_def by force
    have emb: "f a < f b \<longleftrightarrow> a < b" if "a \<in> V" "b \<in> V" for a b
      using count_below_less_iff[OF finK inK[OF that(1)] inK[OF that(2)]]
      by (simp add: f_def)
    have vV: "v \<in> V" using r v unfolding V_def by force
    have finV: "finite V" unfolding V_def by simp
    have "res r = Some (Suc (count_below (f ` V) (f v)))"
      using hr[OF r refl] v by (simp add: res_def Yeq)
    also have "count_below (f ` V) (f v) = count_below V v"
      by (rule count_below_image_embed[OF finV vV emb])
    finally show ?thesis
      using v by (simp add: dense_rank_def V_def)
  qed
  then show "ranks = map (dense_rank enc val df) df"
    unfolding ranks by simp
qed

section \<open>Duplicates\<close>

lemma set_drop_duplicates [simp]: "set (drop_duplicates xs) = set xs"
  by (induction xs rule: drop_duplicates.induct) auto

lemma distinct_drop_duplicates [simp]: "distinct (drop_duplicates xs)"
  by (induction xs rule: drop_duplicates.induct) auto

lemma length_drop_duplicates: "length (drop_duplicates xs) = card (set xs)"
  using distinct_card[OF distinct_drop_duplicates, of xs] by simp

section \<open>Transforming within groups\<close>

lemma length_scatter [simp]: "length (scatter key m rs) = length rs"
  by (induction rs arbitrary: m) auto

lemma length_groupby_transform [simp]: "length (groupby_transform key f df) = length df"
  by (simp add: groupby_transform_def)

lemma scatter_filter:
  assumes "\<And>k. length (filter (\<lambda>r. key r = k) rs) \<le> length (m k)"
  shows "filter (\<lambda>p. key (fst p) = e) (zip rs (scatter key m rs))
           = zip (filter (\<lambda>r. key r = e) rs) (m e)"
  using assms
proof (induction rs arbitrary: m)
  case Nil
  show ?case by simp
next
  case (Cons r rs)
  define m' where "m' = m(key r := tl (m (key r)))"
  have len: "length (filter (\<lambda>x. key x = k) rs) \<le> length (m' k)" for k
    using Cons.prems[of k] by (cases "key r = k") (auto simp: m'_def)
  have IH: "filter (\<lambda>p. key (fst p) = e) (zip rs (scatter key m' rs))
              = zip (filter (\<lambda>r. key r = e) rs) (m' e)"
    by (rule Cons.IH[OF len])
  have sc: "scatter key m (r # rs) = hd (m (key r)) # scatter key m' rs"
    by (simp add: m'_def)
  show ?case
  proof (cases "key r = e")
    case True
    from Cons.prems[of e] True have "m e \<noteq> []" by auto
    then have me: "m e = hd (m e) # tl (m e)" by simp
    have m'e: "m' e = tl (m e)" using True by (simp add: m'_def)
    have "zip (filter (\<lambda>r. key r = e) (r # rs)) (m e)
            = (r, hd (m e)) # zip (filter (\<lambda>r. key r = e) rs) (tl (m e))"
      using True by (subst me) simp
    moreover have "filter (\<lambda>p. key (fst p) = e) (zip (r # rs) (scatter key m (r # rs)))
            = (r, hd (m e)) # filter (\<lambda>p. key (fst p) = e) (zip rs (scatter key m' rs))"
      unfolding sc using True by simp
    ultimately show ?thesis by (simp only: IH m'e)
  next
    case False
    then have m'e: "m' e = m e" by (auto simp: m'_def)
    have "filter (\<lambda>p. key (fst p) = e) (zip (r # rs) (scatter key m (r # rs)))
            = filter (\<lambda>p. key (fst p) = e) (zip rs (scatter key m' rs))"
      unfolding sc using False by simp
    moreover have "filter (\<lambda>r. key r = e) (r # rs) = filter (\<lambda>r. key r = e) rs"
      using False by simp
    ultimately show ?thesis by (simp only: IH m'e)
  qed
qed

lemma groupby_transform_filter:
  assumes "\<And>g. length (f g) = length g"
  shows "filter (\<lambda>p. key (fst p) = e) (zip df (groupby_transform key f df))
           = zip (filter (\<lambda>r. key r = e) df) (f (filter (\<lambda>r. key r = e) df))"
  unfolding groupby_transform_def
  by (rule scatter_filter) (simp add: assms)

lemma filter_map2:
  assumes "\<And>r v. P (h r v) = Q r"
  shows "filter P (map2 h rs vs) = map2 h (map fst (filter (\<lambda>p. Q (fst p)) (zip rs vs)))
                                         (map snd (filter (\<lambda>p. Q (fst p)) (zip rs vs)))"
proof -
  have "filter P (map2 h rs vs) = map (\<lambda>(r, v). h r v) (filter (\<lambda>p. Q (fst p)) (zip rs vs))"
    by (simp add: filter_map comp_def case_prod_beta assms)
  also have "\<dots> = map2 h (map fst (filter (\<lambda>p. Q (fst p)) (zip rs vs)))
                         (map snd (filter (\<lambda>p. Q (fst p)) (zip rs vs)))"
    by (simp add: zip_map_fst_snd)
  finally show ?thesis .
qed

lemma groupby_transform_assign:
  \<comment> \<open>the rows of one group, after the transformed column is assigned\<close>
  assumes len: "\<And>g. length (f g) = length g"
    and key: "\<And>r v. key' (h r v) = key r"
  shows "filter (\<lambda>b. key' b = e) (map2 h df (groupby_transform key f df))
           = map2 h (filter (\<lambda>r. key r = e) df) (f (filter (\<lambda>r. key r = e) df))"
proof -
  let ?z = "zip (filter (\<lambda>r. key r = e) df) (f (filter (\<lambda>r. key r = e) df))"
  have "filter (\<lambda>b. key' b = e) (map2 h df (groupby_transform key f df))
          = map2 h (map fst ?z) (map snd ?z)"
    by (subst filter_map2[where Q="\<lambda>r. key r = e"])
       (simp_all add: key groupby_transform_filter[OF len])
  also have "\<dots> = map2 h (filter (\<lambda>r. key r = e) df) (f (filter (\<lambda>r. key r = e) df))"
    by (simp add: len)
  finally show ?thesis .
qed

section \<open>Filling\<close>

lemma length_bfill [simp]: "length (bfill xs) = length xs"
  by (induction xs rule: bfill.induct) auto

lemma bfill_eq_Nil [simp]: "bfill xs = [] \<longleftrightarrow> xs = []"
  using length_bfill[of xs] by (metis length_0_conv)

lemma bfill_None_Cons:
  "xs \<noteq> [] \<Longrightarrow> bfill (None # xs) = hd (bfill xs) # bfill xs"
  by (cases "bfill xs") auto

lemma ffill_from_valid: "None \<notin> set xs \<Longrightarrow> ffill_from c xs = xs"
  by (induction c xs rule: ffill_from.induct) auto

lemma length_run_ids [simp]:
  "length ids = length links \<Longrightarrow> length (run_ids ids links) = length ids"
  by (induction ids links rule: list_induct2) auto

lemma run_ids_eq_Nil:
  "length ids = length links \<Longrightarrow> run_ids ids links = [] \<longleftrightarrow> ids = []"
  using length_run_ids[of ids links] by (metis length_0_conv)

lemma bfill_seeds:
  assumes "length ids = length links" and "links \<noteq> [] \<longrightarrow> \<not> last links"
  shows "bfill (seeds ids links) = map Some (run_ids ids links)"
  using assms
proof (induction ids links rule: list_induct2)
  case Nil
  show ?case by (simp add: seeds_def)
next
  case (Cons i ids l ls)
  show ?case
  proof (cases "ls = []")
    case True
    with Cons show ?thesis by (simp add: seeds_def)
  next
    case False
    with Cons have IH: "bfill (seeds ids ls) = map Some (run_ids ids ls)" by simp
    from False Cons.hyps have ne: "ids \<noteq> []" by auto
    then have sne: "seeds ids ls \<noteq> []" using False by (cases ids; cases ls) (auto simp: seeds_def)
    have rne: "run_ids ids ls \<noteq> []" using ne Cons.hyps by (simp add: run_ids_eq_Nil)
    from rne obtain y ys where r: "run_ids ids ls = y # ys"
      by (cases "run_ids ids ls") auto
    have "seeds (i # ids) (l # ls) = (if l then None else Some i) # seeds ids ls"
      by (simp add: seeds_def)
    then show ?thesis
      using IH False ne r by simp
  qed
qed

lemma encounter_groups_run_ids:
  assumes "length ids = length links" and "links \<noteq> [] \<longrightarrow> \<not> last links"
  shows "encounter_groups ids links = map Some (run_ids ids links)"
proof -
  have "None \<notin> set (map Some (run_ids ids links))" by auto
  then show ?thesis
    unfolding encounter_groups_def ffill_def bfill_seeds[OF assms]
    by (rule ffill_from_valid)
qed

lemma run_ids_ge:
  assumes "length ids = length links" and "sorted_wrt (<) ids" and "k < length ids"
  shows "ids ! k \<le> run_ids ids links ! k"
  using assms
proof (induction ids links arbitrary: k rule: list_induct2)
  case Nil
  then show ?case by simp
next
  case (Cons i ids l ls)
  show ?case
  proof (cases k)
    case 0
    show ?thesis
    proof (cases "l \<and> ids \<noteq> [] \<and> ls \<noteq> []")
      case True
      then have "0 < length ids" by simp
      with Cons have "ids ! 0 \<le> run_ids ids ls ! 0" by simp
      moreover have "i < ids ! 0" using Cons.prems(1) True by (cases ids) auto
      moreover have "hd (run_ids ids ls) = run_ids ids ls ! 0"
        using True Cons.hyps by (simp add: hd_conv_nth run_ids_eq_Nil)
      ultimately show ?thesis using 0 True by simp
    next
      case False
      with 0 show ?thesis by auto
    qed
  next
    case (Suc j)
    with Cons show ?thesis by simp
  qed
qed

lemma run_ids_step:
  \<comment> \<open>a row either carries on the run of the next row or ends its own\<close>
  assumes "length ids = length links" and "Suc k < length ids"
  shows "run_ids ids links ! k
           = (if links ! k then run_ids ids links ! Suc k else ids ! k)"
  using assms
proof (induction ids links arbitrary: k rule: list_induct2)
  case Nil
  then show ?case by simp
next
  case (Cons i ids l ls)
  show ?case
  proof (cases k)
    case 0
    with Cons.prems have ne: "ids \<noteq> []" by auto
    with Cons.hyps have lne: "ls \<noteq> []" by auto
    have "hd (run_ids ids ls) = run_ids ids ls ! 0"
      using ne Cons.hyps by (simp add: hd_conv_nth run_ids_eq_Nil)
    with 0 ne lne show ?thesis by simp
  next
    case (Suc j)
    with Cons show ?thesis by simp
  qed
qed

section \<open>Runs of linked rows\<close>

lemma run_ids_Suc:
  assumes "length ids = length links" and "sorted_wrt (<) ids" and "Suc k < length ids"
  shows "run_ids ids links ! k \<le> run_ids ids links ! Suc k"
    and "run_ids ids links ! k = run_ids ids links ! Suc k \<longleftrightarrow> links ! k"
proof -
  have "ids ! k < ids ! Suc k"
    using assms(2,3) by (simp add: sorted_wrt_nth_less)
  moreover have "ids ! Suc k \<le> run_ids ids links ! Suc k"
    using assms by (intro run_ids_ge)
  ultimately have lt: "ids ! k < run_ids ids links ! Suc k" by simp
  note step = run_ids_step[OF assms(1,3)]
  show "run_ids ids links ! k \<le> run_ids ids links ! Suc k"
    using lt step by simp
  show "run_ids ids links ! k = run_ids ids links ! Suc k \<longleftrightarrow> links ! k"
    using lt step by auto
qed

lemma sorted_run_ids:
  assumes "length ids = length links" and "sorted_wrt (<) ids"
  shows "sorted (run_ids ids links)"
  unfolding sorted_iff_nth_Suc
  using run_ids_Suc(1)[OF assms] assms(1) by simp

lemma length_forward_segmentation [simp]:
  "length (forward_segmentation g ls) = length ls"
  by (induction ls arbitrary: g) auto

lemma forward_segmentation_Suc:
  assumes "Suc k < length ls"
  shows "forward_segmentation g ls ! Suc k
           = (if ls ! k then forward_segmentation g ls ! k
              else Suc (forward_segmentation g ls ! k))"
  using assms
proof (induction ls arbitrary: g k)
  case Nil
  then show ?case by simp
next
  case (Cons l ls)
  show ?case
  proof (cases k)
    case 0
    with Cons.prems obtain l' ls' where "ls = l' # ls'" by (cases ls) auto
    with 0 show ?thesis by simp
  next
    case (Suc j)
    with Cons show ?thesis by simp
  qed
qed

lemma sorted_forward_segmentation: "sorted (forward_segmentation g ls)"
  unfolding sorted_iff_nth_Suc
  by (simp add: forward_segmentation_Suc)

section \<open>Two non-decreasing columns with the same boundaries\<close>

lemma sorted_eq_iff_adjacent:
  assumes "sorted xs" and "i \<le> j" and "j < length xs"
  shows "xs ! i = xs ! j \<longleftrightarrow> (\<forall>k. i \<le> k \<and> k < j \<longrightarrow> xs ! k = xs ! Suc k)"
proof
  assume eq: "xs ! i = xs ! j"
  show "\<forall>k. i \<le> k \<and> k < j \<longrightarrow> xs ! k = xs ! Suc k"
  proof (intro allI impI)
    fix k assume k: "i \<le> k \<and> k < j"
    from k assms have "xs ! i \<le> xs ! k"
      by (intro sorted_nth_mono) simp_all
    moreover from k assms have "xs ! k \<le> xs ! Suc k"
      by (intro sorted_nth_mono) simp_all
    moreover from k assms have "xs ! Suc k \<le> xs ! j"
      by (intro sorted_nth_mono) simp_all
    ultimately have "xs ! i \<le> xs ! k" "xs ! k \<le> xs ! Suc k" "xs ! Suc k \<le> xs ! j" .
    with eq show "xs ! k = xs ! Suc k" by simp
  qed
next
  assume adj: "\<forall>k. i \<le> k \<and> k < j \<longrightarrow> xs ! k = xs ! Suc k"
  have "i \<le> m \<Longrightarrow> m \<le> j \<Longrightarrow> xs ! i = xs ! m" for m
  proof (induction m)
    case 0
    then show ?case by simp
  next
    case (Suc m)
    show ?case
    proof (cases "i = Suc m")
      case True
      then show ?thesis by simp
    next
      case False
      with Suc.prems have "i \<le> m" "m < j" by simp_all
      with Suc.IH adj show ?thesis by simp
    qed
  qed
  from this[of j] assms(2) show "xs ! i = xs ! j" by simp
qed

lemma same_partition:
  assumes "sorted xs" and "sorted ys" and "length xs = length ys"
    and adj: "\<And>k. Suc k < length xs \<Longrightarrow> (xs ! k = xs ! Suc k) = (ys ! k = ys ! Suc k)"
    and "i < length xs" and "j < length xs"
  shows "xs ! i = xs ! j \<longleftrightarrow> ys ! i = ys ! j"
proof -
  have le: "xs ! a = xs ! b \<longleftrightarrow> ys ! a = ys ! b" if "a \<le> b" "b < length xs" for a b
  proof -
    have "xs ! a = xs ! b \<longleftrightarrow> (\<forall>k. a \<le> k \<and> k < b \<longrightarrow> xs ! k = xs ! Suc k)"
      using assms(1) that by (rule sorted_eq_iff_adjacent)
    also have "\<dots> \<longleftrightarrow> (\<forall>k. a \<le> k \<and> k < b \<longrightarrow> ys ! k = ys ! Suc k)"
    proof -
      have "(xs ! k = xs ! Suc k) = (ys ! k = ys ! Suc k)" if "k < b" for k
      proof -
        from that \<open>b < length xs\<close> have "Suc k < length xs" by simp
        then show ?thesis by (rule adj)
      qed
      then show ?thesis by blast
    qed
    also have "\<dots> \<longleftrightarrow> ys ! a = ys ! b"
      using assms(2) that assms(3) by (intro sorted_eq_iff_adjacent[symmetric]) simp_all
    finally show ?thesis .
  qed
  show ?thesis
  proof (cases "i \<le> j")
    case True
    with le assms(6) show ?thesis by simp
  next
    case False
    then have "j \<le> i" by simp
    from le[OF this assms(5)] show ?thesis by auto
  qed
qed

section \<open>Columns of the extended rows\<close>

lemma assign_icu_rank_simps [simp]:
  "patient_id (assign_icu_rank r k) = patient_id r"
  "encounter_block (assign_icu_rank r k) = encounter_block r"
  "hospitalization_id (assign_icu_rank r k) = hospitalization_id r"
  "in_dttm (assign_icu_rank r k) = in_dttm r"
  "out_dttm (assign_icu_rank r k) = out_dttm r"
  "location_category (assign_icu_rank r k) = location_category r"
  "location_type (assign_icu_rank r k) = location_type r"
  "icu_rank (assign_icu_rank r k) = k"
  by (simp_all add: assign_icu_rank_def adt_row.defs icu_row.defs)

lemma assign_gap_simps [simp]:
  "patient_id (assign_gap r n h l) = patient_id r"
  "encounter_block (assign_gap r n h l) = encounter_block r"
  "hospitalization_id (assign_gap r n h l) = hospitalization_id r"
  "in_dttm (assign_gap r n h l) = in_dttm r"
  "out_dttm (assign_gap r n h l) = out_dttm r"
  "location_category (assign_gap r n h l) = location_category r"
  "location_type (assign_gap r n h l) = location_type r"
  "icu_rank (assign_gap r n h l) = icu_rank r"
  "next_in_dttm (assign_gap r n h l) = n"
  "out_to_next_icu_hrs (assign_gap r n h l) = h"
  "linked6hrs (assign_gap r n h l) = l"
  by (simp_all add: assign_gap_def icu_row.defs gap_row.defs)

lemma assign_icu_group_simps [simp]:
  "patient_id (assign_icu_group r g) = patient_id r"
  "encounter_block (assign_icu_group r g) = encounter_block r"
  "hospitalization_id (assign_icu_group r g) = hospitalization_id r"
  "in_dttm (assign_icu_group r g) = in_dttm r"
  "out_dttm (assign_icu_group r g) = out_dttm r"
  "location_category (assign_icu_group r g) = location_category r"
  "location_type (assign_icu_group r g) = location_type r"
  "icu_rank (assign_icu_group r g) = icu_rank r"
  "next_in_dttm (assign_icu_group r g) = next_in_dttm r"
  "out_to_next_icu_hrs (assign_icu_group r g) = out_to_next_icu_hrs r"
  "linked6hrs (assign_icu_group r g) = linked6hrs r"
  "icu_group (assign_icu_group r g) = g"
  "(assign_icu_group r g)\<lparr>icu_group := g'\<rparr> = assign_icu_group r g'"
  by (simp_all add: assign_icu_group_def gap_row.defs grp_row.defs)

lemma assign_icu_rank_inj: "assign_icu_rank r k = assign_icu_rank r' k' \<longleftrightarrow> r = r' \<and> k = k'"
  by (cases r; cases r') (auto simp: assign_icu_rank_def adt_row.defs icu_row.defs)

lemma assign_gap_inj:
  "assign_gap r n h l = assign_gap r' n' h' l' \<longleftrightarrow> r = r' \<and> n = n' \<and> h = h' \<and> l = l'"
  by (cases r; cases r') (auto simp: assign_gap_def icu_row.defs gap_row.defs)

lemma assign_icu_group_inj:
  "assign_icu_group r g = assign_icu_group r' g' \<longleftrightarrow> r = r' \<and> g = g'"
  by (cases r; cases r') (auto simp: assign_icu_group_def gap_row.defs grp_row.defs)

section \<open>The initial rank\<close>

lemma map2_map_same: "map2 f xs (map g xs) = map (\<lambda>x. f x (g x)) xs"
  by (induction xs) auto

lemma icu_adt_Inr:
  assumes "icu_adt adt_df = Inr rows"
  defines "df \<equiv> sort_key (\<lambda>r. (encounter_block r, nulls_last (in_dttm r))) (icu_adt_df adt_df)"
  shows "\<forall>r\<in>set df. in_dttm r \<noteq> None"
    and "rows = map (\<lambda>r. assign_icu_rank r (dense_rank encounter_block in_dttm df r)) df"
proof -
  from assms(1) obtain ranks where
    ranks: "initial_icu_rank df = Inr ranks" and rows: "rows = map2 assign_icu_rank df ranks"
    unfolding icu_adt_def df_def[symmetric] by (auto simp: Let_def split: sum.splits)
  note p = dense_rank_pipeline[OF ranks[unfolded initial_icu_rank_def]]
  show "\<forall>r\<in>set df. in_dttm r \<noteq> None" by (rule p(1))
  show "rows = map (\<lambda>r. assign_icu_rank r (dense_rank encounter_block in_dttm df r)) df"
    unfolding rows p(2) by (rule map2_map_same)
qed

lemma dense_rank_pipeline_Inl:
  fixes enc :: "'r \<Rightarrow> nat" and val :: "'r \<Rightarrow> 'v::linorder option"
  shows "astype_int (groupby_rank_dense (map enc df)
           (map (map_option Suc)
              (ngroup (\<lambda>r. map_option (Pair (enc r)) (val r)) df))) = Inl e
         \<longleftrightarrow> e = IntCastingNaNError \<and> (\<exists>r\<in>set df. val r = None)"
proof -
  define key where "key = (\<lambda>r. map_option (Pair (enc r)) (val r))"
  define h where "h = (\<lambda>r. map_option (\<lambda>k. Suc (count_below {k. \<exists>r'\<in>set df. key r' = Some k} k))
                              (key r))"
  have ng: "map (map_option Suc) (ngroup key df) = map h df"
    by (simp add: ngroup_count_below h_def option.map_comp comp_def)
  have none: "None \<in> set (groupby_rank_dense (map enc df) (map h df))
                \<longleftrightarrow> (\<exists>r\<in>set df. val r = None)"
    unfolding groupby_rank_dense_count_below
    by (auto simp: h_def key_def image_iff)
  show ?thesis
    unfolding key_def[symmetric] ng astype_int_def
    using none by (cases e) auto
qed

lemma icu_adt_Inl:
  "icu_adt adt_df = Inl e
     \<longleftrightarrow> e = IntCastingNaNError \<and> (\<exists>r\<in>set (icu_adt_df adt_df). in_dttm r = None)"
proof -
  define df where
    "df = sort_key (\<lambda>r. (encounter_block r, nulls_last (in_dttm r))) (icu_adt_df adt_df)"
  have "icu_adt adt_df = Inl e \<longleftrightarrow> initial_icu_rank df = Inl e"
    unfolding icu_adt_def df_def[symmetric] by (auto simp: Let_def split: sum.splits)
  also have "\<dots> \<longleftrightarrow> e = IntCastingNaNError \<and> (\<exists>r\<in>set df. in_dttm r = None)"
    unfolding initial_icu_rank_def by (rule dense_rank_pipeline_Inl)
  also have "set df = set (icu_adt_df adt_df)" by (simp add: df_def)
  finally show ?thesis .
qed

section \<open>The rows of one encounter\<close>

lemma map_map2_key:
  assumes "length ys = length xs" and "\<And>x y. k (h x y) = k' x"
  shows "map k (map2 h xs ys) = map k' xs"
  using assms(1) by (induction ys xs rule: list_induct2) (simp_all add: assms(2))

lemma map2_map_left: "map2 h (map a zs) gs = map2 (\<lambda>p g. h (a p) g) zs gs"
  by (induction zs arbitrary: gs) (auto simp: zip_Cons1 split: list.splits)

lemma length_ffill_from [simp]: "length (ffill_from c xs) = length xs"
  by (induction c xs rule: ffill_from.induct) auto

lemma length_ffill [simp]: "length (ffill xs) = length xs"
  by (simp add: ffill_def)

lemma length_shift_neg1 [simp]: "length (shift_neg1 xs) = length xs"
  by (cases xs) auto

lemma length_encounter_gaps [simp]: "length (encounter_gaps gap segs) = length segs"
  by (simp add: encounter_gaps_def)

lemma sorted_sort_encounter_rank:
  "sorted (map (\<lambda>r. (encounter_block r, icu_rank r)) (sort_encounter_rank df))"
  by (simp add: sort_encounter_rank_def)

lemma set_sort_encounter_rank [simp]: "set (sort_encounter_rank df) = set df"
  by (simp add: sort_encounter_rank_def)

lemma distinct_sort_encounter_rank [simp]: "distinct (sort_encounter_rank df) = distinct df"
  by (simp add: sort_encounter_rank_def)

lemma length_sort_encounter_rank [simp]: "length (sort_encounter_rank df) = length df"
  by (simp add: sort_encounter_rank_def)

lemma icu_block_gaps_eq:
  defines "blk \<equiv> \<lambda>rows. sort_encounter_rank (drop_duplicates rows)"
  shows "icu_block_gaps gap rows =
           map2 (gap_columns gap) (blk rows)
             (groupby_transform encounter_block (\<lambda>g. shift_neg1 (map in_dttm g)) (blk rows))"
proof -
  let ?nx = "groupby_transform encounter_block (\<lambda>g. shift_neg1 (map in_dttm g)) (blk rows)"
  have keys: "map (\<lambda>r. (encounter_block r, icu_rank r)) (map2 (gap_columns gap) (blk rows) ?nx)
                = map (\<lambda>r. (encounter_block r, icu_rank r)) (blk rows)"
    by (rule map_map2_key) (simp_all add: gap_columns_def)
  have "sorted (map (\<lambda>r. (encounter_block r, icu_rank r)) (blk rows))"
    unfolding blk_def by (rule sorted_sort_encounter_rank)
  then have "sorted (map (\<lambda>r. (encounter_block r, icu_rank r))
                  (map2 (gap_columns gap) (blk rows) ?nx))"
    by (simp only: keys)
  then have "sort_encounter_rank (map2 (gap_columns gap) (blk rows) ?nx)
               = map2 (gap_columns gap) (blk rows) ?nx"
    unfolding sort_encounter_rank_def by (rule sort_key_id_if_sorted)
  then show ?thesis
    unfolding icu_block_gaps_def blk_def gap_columns_def by (simp add: Let_def)
qed

lemma icu_block_gaps_encounter:
  "filter (\<lambda>b. encounter_block b = e) (icu_block_gaps gap rows) =
     encounter_gaps gap
       (filter (\<lambda>r. encounter_block r = e) (sort_encounter_rank (drop_duplicates rows)))"
  unfolding icu_block_gaps_eq encounter_gaps_def
  by (rule groupby_transform_assign) (simp_all add: gap_columns_def)

lemma length_icu_block_gaps [simp]:
  "length (icu_block_gaps gap rows) = length (drop_duplicates rows)"
  unfolding icu_block_gaps_eq by simp

lemma map_snd_filter_enumerate:
  "map snd (filter (\<lambda>p. Q (snd p)) (enumerate n xs)) = filter Q xs"
  by (induction xs arbitrary: n) auto

lemma sorted_ids_filter_enumerate:
  "sorted_wrt (<) (map fst (filter Q (enumerate n xs)))"
proof (induction xs arbitrary: n)
  case Nil
  show ?case by simp
next
  case (Cons x xs)
  have "n < fst p" if "p \<in> set (enumerate (Suc n) xs)" for p
    using that by (auto simp: in_set_enumerate_eq)
  with Cons[of "Suc n"] show ?case by auto
qed

lemma icu_block_groups_encounter:
  defines "z \<equiv> \<lambda>e df. filter (\<lambda>p. encounter_block (snd p) = e) (enumerate 1 df)"
  shows "filter (\<lambda>b. encounter_block b = e) (icu_block_groups df) =
           map2 assign_icu_group (map snd (z e df))
             (encounter_groups (map fst (z e df)) (map linked6hrs (map snd (z e df))))"
proof -
  define ib where "ib = map (\<lambda>(i, r). assign_icu_group r (Some i)) (enumerate 1 df)"
  define F where "F = (\<lambda>group :: grp_row list.
     ffill (bfill (map (\<lambda>r. if \<not> linked6hrs r then icu_group r else None) group)))"
  have ibe: "filter (\<lambda>r. encounter_block r = e) ib
               = map (\<lambda>(i, r). assign_icu_group r (Some i)) (z e df)"
    unfolding ib_def z_def
    by (simp add: filter_map comp_def case_prod_beta)
  have Fibe: "F (map (\<lambda>(i, r). assign_icu_group r (Some i)) (z e df))
                = encounter_groups (map fst (z e df)) (map linked6hrs (map snd (z e df)))"
    unfolding F_def encounter_groups_def seeds_def
    by (simp add: zip_map_map zip_same_conv_map comp_def case_prod_beta cong: if_cong)
  have "filter (\<lambda>b. encounter_block b = e) (icu_block_groups df)
          = map2 (\<lambda>r g. r\<lparr>icu_group := g\<rparr>) (filter (\<lambda>r. encounter_block r = e) ib)
              (F (filter (\<lambda>r. encounter_block r = e) ib))"
    unfolding icu_block_groups_def ib_def[symmetric] F_def[symmetric] Let_def
    by (rule groupby_transform_assign) (simp_all add: F_def)
  also have "\<dots> = map2 (\<lambda>p g. (assign_icu_group (snd p) (Some (fst p)))\<lparr>icu_group := g\<rparr>) (z e df)
                     (encounter_groups (map fst (z e df)) (map linked6hrs (map snd (z e df))))"
    unfolding ibe Fibe by (simp add: map2_map_left case_prod_beta)
  also have "\<dots> = map2 assign_icu_group (map snd (z e df))
                     (encounter_groups (map fst (z e df)) (map linked6hrs (map snd (z e df))))"
    by (simp add: map2_map_left)
  finally show ?thesis .
qed

lemma length_icu_block_groups [simp]: "length (icu_block_groups df) = length df"
  by (simp add: icu_block_groups_def Let_def)

lemma truncate_assign_icu_rank [simp]: "adt_row.truncate (assign_icu_rank r k) = r"
  by (cases r) (simp add: assign_icu_rank_def adt_row.defs icu_row.defs)

lemma truncate_assign_gap [simp]:
  "adt_row.truncate (assign_gap r n h l) = adt_row.truncate r"
  by (cases r) (simp add: assign_gap_def adt_row.defs icu_row.defs gap_row.defs)

lemma truncate_assign_icu_group [simp]:
  "adt_row.truncate (assign_icu_group r g) = adt_row.truncate r"
  by (cases r) (simp add: assign_icu_group_def adt_row.defs icu_row.defs gap_row.defs grp_row.defs)

lemma nth_shift_neg1:
  "k < length xs \<Longrightarrow> shift_neg1 xs ! k = (if Suc k < length xs then xs ! Suc k else None)"
  by (cases xs) (auto simp: nth_append)

lemma hours_between_None [simp]: "hours_between a None = None"
  by (simp add: hours_between_def split: option.splits)

lemma nth_encounter_gaps:
  assumes "k < length segs"
  shows "encounter_gaps gap segs ! k =
           gap_columns gap (segs ! k)
             (if Suc k < length segs then in_dttm (segs ! Suc k) else None)"
  using assms by (simp add: encounter_gaps_def nth_shift_neg1)

lemma encounter_gaps_eq_Nil [simp]: "encounter_gaps gap segs = [] \<longleftrightarrow> segs = []"
  using length_encounter_gaps[of gap segs] by (metis length_0_conv)

lemma encounter_gaps_last_not_linked:
  assumes "segs \<noteq> []"
  shows "\<not> last (map linked6hrs (encounter_gaps gap segs))"
proof -
  let ?n = "length segs"
  from assms have n: "?n - 1 < ?n" by simp
  have "last (map linked6hrs (encounter_gaps gap segs))
          = linked6hrs (encounter_gaps gap segs ! (?n - 1))"
    using assms by (simp add: last_conv_nth nth_map)
  also have "encounter_gaps gap segs ! (?n - 1) = gap_columns gap (segs ! (?n - 1)) None"
  proof -
    from assms have "\<not> Suc (?n - 1) < ?n" by simp
    with n show ?thesis by (simp only: nth_encounter_gaps if_False)
  qed
  also have "linked6hrs (gap_columns gap (segs ! (?n - 1)) None) = False"
    by (simp add: gap_columns_def hours_between_None less_than_def)
  finally show ?thesis by simp
qed

lemma encounter_rows_eq:
  assumes "length ids = length segs"
  shows "encounter_rows gap ids segs =
           map2 assign_icu_group (encounter_gaps gap segs)
             (map Some (run_ids ids (map linked6hrs (encounter_gaps gap segs))))"
proof -
  have "encounter_groups ids (map linked6hrs (encounter_gaps gap segs))
          = map Some (run_ids ids (map linked6hrs (encounter_gaps gap segs)))"
  proof (rule encounter_groups_run_ids)
    show "length ids = length (map linked6hrs (encounter_gaps gap segs))"
      using assms by simp
    show "map linked6hrs (encounter_gaps gap segs) \<noteq> []
            \<longrightarrow> \<not> last (map linked6hrs (encounter_gaps gap segs))"
      using encounter_gaps_last_not_linked[of segs gap] by auto
  qed
  then show ?thesis by (simp add: encounter_rows_def)
qed

lemma length_encounter_rows [simp]:
  "length ids = length segs \<Longrightarrow> length (encounter_rows gap ids segs) = length segs"
  by (simp add: encounter_rows_eq)

lemma nth_encounter_rows:
  assumes "length ids = length segs" and "k < length segs"
  shows "encounter_rows gap ids segs ! k =
           assign_icu_group (encounter_gaps gap segs ! k)
             (Some (run_ids ids (map linked6hrs (encounter_gaps gap segs)) ! k))"
  using assms by (simp add: encounter_rows_eq)

section \<open>The block of a successful run\<close>

lemma icu_block_Inr:
  "icu_block adt_df gap = Inr blk \<longleftrightarrow>
     (\<exists>rows. icu_adt adt_df = Inr rows \<and> blk = icu_block_groups (icu_block_gaps gap rows))"
  by (auto simp: icu_block_def split: sum.splits)

lemma icu_block_Inl: "icu_block adt_df gap = Inl err \<longleftrightarrow> icu_adt adt_df = Inl err"
  by (auto simp: icu_block_def split: sum.splits)

lemma icu_adt_rank_mono:
  assumes ok: "icu_adt adt_df = Inr rows"
    and x: "x \<in> set rows" and y: "y \<in> set rows"
    and enc: "encounter_block x = encounter_block y"
    and le: "icu_rank x \<le> icu_rank y"
  shows "the (in_dttm x) \<le> the (in_dttm y)"
proof -
  define df where
    "df = sort_key (\<lambda>r. (encounter_block r, nulls_last (in_dttm r))) (icu_adt_df adt_df)"
  define rho where "rho = dense_rank encounter_block in_dttm df"
  have rows: "rows = map (\<lambda>r. assign_icu_rank r (rho r)) df"
    unfolding rho_def df_def by (rule icu_adt_Inr(2)[OF ok])
  from x rows obtain r where r: "r \<in> set df" "x = assign_icu_rank r (rho r)" by auto
  from y rows obtain r' where r': "r' \<in> set df" "y = assign_icu_rank r' (rho r')" by auto
  from enc r r' have e: "encounter_block r' = encounter_block r" by simp
  from le r r' have "\<not> rho r' < rho r" by simp
  then have "\<not> the (in_dttm r') < the (in_dttm r)"
    unfolding rho_def using dense_rank_less_iff[OF r'(1) r(1) e, where val = in_dttm] by simp
  with r r' show ?thesis by simp
qed

lemma icu_adt_truncate:
  assumes ok: "icu_adt adt_df = Inr rows"
  shows "set (map adt_row.truncate rows) = set (icu_adt_df adt_df)"
    and "inj_on adt_row.truncate (set rows)"
    and "\<forall>x\<in>set rows. in_dttm x \<noteq> None"
proof -
  define df where
    "df = sort_key (\<lambda>r. (encounter_block r, nulls_last (in_dttm r))) (icu_adt_df adt_df)"
  define rho where "rho = dense_rank encounter_block in_dttm df"
  have rows: "rows = map (\<lambda>r. assign_icu_rank r (rho r)) df"
    unfolding rho_def df_def by (rule icu_adt_Inr(2)[OF ok])
  have some: "\<forall>r\<in>set df. in_dttm r \<noteq> None"
    unfolding df_def by (rule icu_adt_Inr(1)[OF ok])
  have "map adt_row.truncate rows = df"
    unfolding rows by (simp add: comp_def)
  then show "set (map adt_row.truncate rows) = set (icu_adt_df adt_df)"
    by (simp add: df_def)
  show "inj_on adt_row.truncate (set rows)"
    unfolding rows by (auto simp: inj_on_def)
  show "\<forall>x\<in>set rows. in_dttm x \<noteq> None"
    unfolding rows using some by auto
qed

lemma icu_block_encounter:
  assumes ok: "icu_block adt_df gap = Inr blk"
  obtains ids segs where
    "filter (\<lambda>b. encounter_block b = e) blk = encounter_rows gap ids segs"
    and "length ids = length segs"
    and "sorted_wrt (<) ids"
    and "\<forall>s\<in>set segs. encounter_block s = e \<and> in_dttm s \<noteq> None"
    and "sorted (map (\<lambda>s. the (in_dttm s)) segs)"
    and "distinct (map adt_row.truncate segs)"
    and "set (map adt_row.truncate segs) = {r \<in> set (icu_adt_df adt_df). encounter_block r = e}"
proof -
  from ok obtain rows where rows: "icu_adt adt_df = Inr rows"
    and blk: "blk = icu_block_groups (icu_block_gaps gap rows)"
    by (auto simp: icu_block_Inr)
  define block3 where "block3 = sort_encounter_rank (drop_duplicates rows)"
  define G where "G = icu_block_gaps gap rows"
  define z where "z = filter (\<lambda>p. encounter_block (snd p) = e) (enumerate 1 G)"
  define ids where "ids = map fst z"
  define segs where "segs = filter (\<lambda>r. encounter_block r = e) block3"
  have set3: "set block3 = set rows" by (simp add: block3_def)
  have sub: "set segs \<subseteq> set rows" unfolding segs_def set3[symmetric] by auto
  have snd_z: "map snd z = encounter_gaps gap segs"
    unfolding z_def G_def segs_def block3_def
    using map_snd_filter_enumerate[where Q = "\<lambda>r. encounter_block r = e" and n = 1
        and xs = "icu_block_gaps gap rows"]
    by (simp only: icu_block_gaps_encounter)
  have 1: "filter (\<lambda>b. encounter_block b = e) blk = encounter_rows gap ids segs"
    unfolding blk G_def[symmetric] icu_block_groups_encounter z_def[symmetric]
      ids_def[symmetric] snd_z encounter_rows_def ..
  have "length ids = length (map snd z)" by (simp add: ids_def)
  then have 2: "length ids = length segs" by (simp only: snd_z length_encounter_gaps)
  have 3: "sorted_wrt (<) ids"
    unfolding ids_def z_def by (rule sorted_ids_filter_enumerate)
  have 4: "\<forall>s\<in>set segs. encounter_block s = e \<and> in_dttm s \<noteq> None"
    using sub icu_adt_truncate(3)[OF rows] by (auto simp: segs_def)
  have "sorted (map (\<lambda>r. (encounter_block r, icu_rank r)) segs)"
    unfolding segs_def block3_def by (intro sorted_filter sorted_sort_encounter_rank)
  then have "sorted_wrt (\<lambda>x y. (encounter_block x, icu_rank x) \<le> (encounter_block y, icu_rank y)) segs"
    by (simp add: sorted_map)
  then have "sorted_wrt (\<lambda>x y. the (in_dttm x) \<le> the (in_dttm y)) segs"
  proof (rule sorted_wrt_mono_rel[rotated])
    fix x y
    assume x: "x \<in> set segs" and y: "y \<in> set segs"
      and le: "(encounter_block x, icu_rank x) \<le> (encounter_block y, icu_rank y)"
    from x y 4 have enc: "encounter_block x = encounter_block y" by simp
    with le have "icu_rank x \<le> icu_rank y" by simp
    with x y sub enc show "the (in_dttm x) \<le> the (in_dttm y)"
      by (intro icu_adt_rank_mono[OF rows]) auto
  qed
  then have 5: "sorted (map (\<lambda>s. the (in_dttm s)) segs)"
    by (simp add: sorted_map)
  have d3: "distinct block3" by (simp add: block3_def)
  have inj: "inj_on adt_row.truncate (set block3)"
    unfolding set3 by (rule icu_adt_truncate(2)[OF rows])
  have "distinct (map adt_row.truncate block3)"
    using d3 inj by (simp add: distinct_map)
  then have 6: "distinct (map adt_row.truncate segs)"
    unfolding segs_def using d3 inj
    by (simp add: distinct_map inj_on_subset[OF inj])
  have "set (map adt_row.truncate block3) = set (icu_adt_df adt_df)"
    using icu_adt_truncate(1)[OF rows] set3 by simp
  have enc_tr: "encounter_block (adt_row.truncate x) = encounter_block x" for x :: icu_row
    by (cases x) (simp add: adt_row.defs)
  have 7: "set (map adt_row.truncate segs)
             = {r \<in> set (icu_adt_df adt_df). encounter_block r = e}"
  proof -
    have "set (map adt_row.truncate segs)
            = {r \<in> adt_row.truncate ` set rows. encounter_block r = e}"
      unfolding segs_def using set3 by (auto simp: enc_tr image_iff)
    also have "adt_row.truncate ` set rows = set (icu_adt_df adt_df)"
      using icu_adt_truncate(1)[OF rows] by simp
    finally show ?thesis .
  qed
  from 1 2 3 4 5 6 7 show thesis by (rule that)
qed

section \<open>The columns of one encounter\<close>

lemma gap_columns_simps [simp]:
  "encounter_block (gap_columns gap r n) = encounter_block r"
  "in_dttm (gap_columns gap r n) = in_dttm r"
  "out_dttm (gap_columns gap r n) = out_dttm r"
  "location_type (gap_columns gap r n) = location_type r"
  "icu_rank (gap_columns gap r n) = icu_rank r"
  "next_in_dttm (gap_columns gap r n) = n"
  "linked6hrs (gap_columns gap r n) = less_than (hours_between (out_dttm r) n) gap"
  "adt_row.truncate (gap_columns gap r n) = adt_row.truncate r"
  by (simp_all add: gap_columns_def)

lemma map_map2_snd:
  assumes "length ys = length xs" and "\<And>x y. k (h x y) = y"
  shows "map k (map2 h xs ys) = ys"
  using assms(1) by (induction ys xs rule: list_induct2) (simp_all add: assms(2))

lemma encounter_gaps_columns:
  "map in_dttm (encounter_gaps gap segs) = map in_dttm segs"
  "map out_dttm (encounter_gaps gap segs) = map out_dttm segs"
  "map location_type (encounter_gaps gap segs) = map location_type segs"
  "map encounter_block (encounter_gaps gap segs) = map encounter_block segs"
  "map adt_row.truncate (encounter_gaps gap segs) = map adt_row.truncate segs"
  unfolding encounter_gaps_def by (rule map_map2_key; simp)+

lemma encounter_rows_columns:
  assumes "length ids = length segs"
  shows "map in_dttm (encounter_rows gap ids segs) = map in_dttm segs"
    and "map out_dttm (encounter_rows gap ids segs) = map out_dttm segs"
    and "map location_type (encounter_rows gap ids segs) = map location_type segs"
    and "map encounter_block (encounter_rows gap ids segs) = map encounter_block segs"
    and "map adt_row.truncate (encounter_rows gap ids segs) = map adt_row.truncate segs"
    and "map linked6hrs (encounter_rows gap ids segs) = map linked6hrs (encounter_gaps gap segs)"
    and "map icu_group (encounter_rows gap ids segs)
           = map Some (run_ids ids (map linked6hrs (encounter_gaps gap segs)))"
proof -
  let ?gaps = "encounter_gaps gap segs"
  let ?run = "map Some (run_ids ids (map linked6hrs ?gaps))"
  have len: "length ?run = length ?gaps" using assms by simp
  have rows: "encounter_rows gap ids segs = map2 assign_icu_group ?gaps ?run"
    by (rule encounter_rows_eq[OF assms])
  have "map in_dttm (map2 assign_icu_group ?gaps ?run) = map in_dttm ?gaps"
    by (rule map_map2_key[OF len]) simp
  then show "map in_dttm (encounter_rows gap ids segs) = map in_dttm segs"
    by (simp only: rows encounter_gaps_columns)
  have "map out_dttm (map2 assign_icu_group ?gaps ?run) = map out_dttm ?gaps"
    by (rule map_map2_key[OF len]) simp
  then show "map out_dttm (encounter_rows gap ids segs) = map out_dttm segs"
    by (simp only: rows encounter_gaps_columns)
  have "map location_type (map2 assign_icu_group ?gaps ?run) = map location_type ?gaps"
    by (rule map_map2_key[OF len]) simp
  then show "map location_type (encounter_rows gap ids segs) = map location_type segs"
    by (simp only: rows encounter_gaps_columns)
  have "map encounter_block (map2 assign_icu_group ?gaps ?run) = map encounter_block ?gaps"
    by (rule map_map2_key[OF len]) simp
  then show "map encounter_block (encounter_rows gap ids segs) = map encounter_block segs"
    by (simp only: rows encounter_gaps_columns)
  have "map adt_row.truncate (map2 assign_icu_group ?gaps ?run) = map adt_row.truncate ?gaps"
    by (rule map_map2_key[OF len]) simp
  then show "map adt_row.truncate (encounter_rows gap ids segs) = map adt_row.truncate segs"
    by (simp only: rows encounter_gaps_columns)
  have "map linked6hrs (map2 assign_icu_group ?gaps ?run) = map linked6hrs ?gaps"
    by (rule map_map2_key[OF len]) simp
  then show "map linked6hrs (encounter_rows gap ids segs) = map linked6hrs ?gaps"
    by (simp only: rows)
  have "map icu_group (map2 assign_icu_group ?gaps ?run) = ?run"
    by (rule map_map2_snd[OF len]) simp
  then show "map icu_group (encounter_rows gap ids segs) = ?run"
    by (simp only: rows)
qed

lemma nth_linked_encounter_gaps:
  assumes "Suc k < length segs"
  shows "linked6hrs (encounter_gaps gap segs ! k)
           = less_than (hours_between (out_dttm (segs ! k)) (in_dttm (segs ! Suc k))) gap"
proof -
  from assms have "k < length segs" by simp
  then show ?thesis using assms by (simp add: nth_encounter_gaps)
qed

lemma col_nth: "map f xs = ys \<Longrightarrow> k < length xs \<Longrightarrow> f (xs ! k) = ys ! k"
  by (metis nth_map)

section \<open>Facts on the rows of one encounter in the block\<close>

lemma icu_block_encounter_facts:
  fixes e :: nat and blk :: "grp_row list"
  assumes ok: "icu_block adt_df gap = Inr blk"
  defines "bs \<equiv> filter (\<lambda>b. encounter_block b = e) blk"
  shows in_some: "\<forall>b\<in>set bs. in_dttm b \<noteq> None"
    and grp_some: "\<forall>b\<in>set bs. icu_group b \<noteq> None"
    and sorted_in: "sorted (map (\<lambda>b. the (in_dttm b)) bs)"
    and sorted_grp: "sorted (map (\<lambda>b. the (icu_group b)) bs)"
    and link_gap: "\<forall>k. Suc k < length bs \<longrightarrow>
          linked6hrs (bs ! k)
            = less_than (hours_between (out_dttm (bs ! k)) (in_dttm (bs ! Suc k))) gap"
    and last_open: "bs \<noteq> [] \<longrightarrow> \<not> linked6hrs (last bs)"
    and adjacent: "\<forall>k. Suc k < length bs \<longrightarrow>
          (icu_group (bs ! k) = icu_group (bs ! Suc k)) = linked6hrs (bs ! k)"
    and segments: "distinct (map adt_row.truncate bs)"
          "set (map adt_row.truncate bs) = {r \<in> set (icu_adt_df adt_df). encounter_block r = e}"
proof -
  obtain ids segs where
    bs: "bs = encounter_rows gap ids segs"
    and len: "length ids = length segs"
    and ids: "sorted_wrt (<) ids"
    and segs: "\<forall>s\<in>set segs. encounter_block s = e \<and> in_dttm s \<noteq> None"
    and sin: "sorted (map (\<lambda>s. the (in_dttm s)) segs)"
    and dist: "distinct (map adt_row.truncate segs)"
    and inp: "set (map adt_row.truncate segs)
                = {r \<in> set (icu_adt_df adt_df). encounter_block r = e}"
    unfolding bs_def by (rule icu_block_encounter[OF ok, of e]) 
  define links where "links = map linked6hrs (encounter_gaps gap segs)"
  define run where "run = run_ids ids links"
  note cols = encounter_rows_columns[OF len, of gap, folded bs links_def run_def]
  have lbs: "length bs = length segs" unfolding bs using len by simp
  have llinks: "length ids = length links" using len by (simp add: links_def)
  have lrun: "length run = length segs" using llinks len by (simp add: run_def)

  show "\<forall>b\<in>set bs. in_dttm b \<noteq> None"
  proof
    fix b assume "b \<in> set bs"
    then have "in_dttm b \<in> set (map in_dttm bs)" by simp
    then have "in_dttm b \<in> set (map in_dttm segs)" by (simp only: cols(1))
    then obtain s where "s \<in> set segs" "in_dttm b = in_dttm s" by auto
    with segs show "in_dttm b \<noteq> None" by simp
  qed

  show "\<forall>b\<in>set bs. icu_group b \<noteq> None"
  proof
    fix b assume "b \<in> set bs"
    then have "icu_group b \<in> set (map icu_group bs)" by simp
    then have "icu_group b \<in> set (map Some run)" by (simp only: cols(7))
    then show "icu_group b \<noteq> None" by auto
  qed

  have "map (\<lambda>b. the (in_dttm b)) bs = map the (map in_dttm bs)" by simp
  also have "\<dots> = map (\<lambda>s. the (in_dttm s)) segs" by (simp only: cols(1)) simp
  finally show "sorted (map (\<lambda>b. the (in_dttm b)) bs)" using sin by simp

  have "map (\<lambda>b. the (icu_group b)) bs = map the (map icu_group bs)" by simp
  also have "\<dots> = run" by (simp only: cols(7)) (simp add: comp_def)
  finally have grp_run: "map (\<lambda>b. the (icu_group b)) bs = run" .
  show "sorted (map (\<lambda>b. the (icu_group b)) bs)"
    unfolding grp_run run_def by (rule sorted_run_ids[OF llinks ids])

  have link_k: "linked6hrs (bs ! k)
            = less_than (hours_between (out_dttm (bs ! k)) (in_dttm (bs ! Suc k))) gap"
    and adj_k: "(icu_group (bs ! k) = icu_group (bs ! Suc k)) = linked6hrs (bs ! k)"
    if k: "Suc k < length bs" for k
  proof -
    from k lbs have k1: "k < length bs" and ks: "Suc k < length segs" and k0: "k < length segs"
      by simp_all
    have l: "linked6hrs (bs ! k) = links ! k"
      using col_nth[OF cols(6) k1] .
    have lk: "links ! k = linked6hrs (encounter_gaps gap segs ! k)"
      using k0 by (simp add: links_def)
    have o: "out_dttm (bs ! k) = out_dttm (segs ! k)"
      using col_nth[OF cols(2) k1] k0 by simp
    have i: "in_dttm (bs ! Suc k) = in_dttm (segs ! Suc k)"
      using col_nth[OF cols(1) k] ks by simp
    show "linked6hrs (bs ! k)
            = less_than (hours_between (out_dttm (bs ! k)) (in_dttm (bs ! Suc k))) gap"
      unfolding l lk o i by (rule nth_linked_encounter_gaps[OF ks])
    have g0: "icu_group (bs ! k) = Some (run ! k)"
      using col_nth[OF cols(7) k1] k0 lrun by simp
    have g1: "icu_group (bs ! Suc k) = Some (run ! Suc k)"
      using col_nth[OF cols(7) k] ks lrun by simp
    from ks len have "Suc k < length ids" by simp
    from run_ids_Suc(2)[OF llinks ids this]
    show "(icu_group (bs ! k) = icu_group (bs ! Suc k)) = linked6hrs (bs ! k)"
      unfolding g0 g1 l run_def by simp
  qed
  from link_k show "\<forall>k. Suc k < length bs \<longrightarrow>
          linked6hrs (bs ! k)
            = less_than (hours_between (out_dttm (bs ! k)) (in_dttm (bs ! Suc k))) gap"
    by blast
  from adj_k show "\<forall>k. Suc k < length bs \<longrightarrow>
          (icu_group (bs ! k) = icu_group (bs ! Suc k)) = linked6hrs (bs ! k)"
    by blast

  show "bs \<noteq> [] \<longrightarrow> \<not> linked6hrs (last bs)"
  proof
    assume ne: "bs \<noteq> []"
    with lbs have sne: "segs \<noteq> []" by auto
    have "linked6hrs (last bs) = last (map linked6hrs bs)"
      using ne by (simp add: last_map)
    also have "\<dots> = last (map linked6hrs (encounter_gaps gap segs))"
      by (simp only: cols(6) links_def)
    finally show "\<not> linked6hrs (last bs)"
      using encounter_gaps_last_not_linked[OF sne, of gap] by simp
  qed

  show "distinct (map adt_row.truncate bs)" using dist by (simp only: cols(5))
  show "set (map adt_row.truncate bs) = {r \<in> set (icu_adt_df adt_df). encounter_block r = e}"
    using inp by (simp only: cols(5))
qed

section \<open>Properties of the interval stitcher\<close>

lemma scenario_B_block_eval: "icu_block scenario_B 6 = Inr scenario_B_block"
  by code_simp

lemma less_than_hours_between:
  "less_than (hours_between x y) gap \<longleftrightarrow>
     (\<exists>a b. x = Some a \<and> y = Some b \<and> round_double (total_seconds (b - a) / 3600) < gap)"
  by (auto simp: less_than_def hours_between_def split: option.splits)

subsection \<open>Rounding keeps the sign\<close>

lemma pow2_pos [simp]: "0 < pow2 k"
  by (simp add: pow2_def)

lemma round_half_even_nonpos:
  assumes "x \<le> 0"
  shows "round_half_even x \<le> 0"
proof -
  from assms have n: "\<lfloor>x\<rfloor> \<le> 0" by (simp add: floor_le_zero)
  show ?thesis
  proof (cases "\<lfloor>x\<rfloor> = 0")
    case True
    with assms have "x - of_int \<lfloor>x\<rfloor> < 1 / 2" by simp
    with True show ?thesis by (simp add: round_half_even_def Let_def)
  next
    case False
    from n False have "\<lfloor>x\<rfloor> < 0" by (rule le_neq_trans)
    then have "\<lfloor>x\<rfloor> + 1 \<le> 0" by (rule zless_imp_add1_zle)
    with n show ?thesis by (simp only: round_half_even_def Let_def split: if_splits) simp
  qed
qed

lemma round_double_nonpos:
  assumes "x \<le> 0"
  shows "round_double x \<le> 0"
proof (cases "x = 0")
  case True
  then show ?thesis by (simp add: round_double_def)
next
  case False
  define e where "e = exponent2 x - 52"
  from assms have "x / pow2 e \<le> 0" by (simp add: divide_nonpos_pos)
  then have "round_half_even (x / pow2 e) \<le> 0" by (rule round_half_even_nonpos)
  then have "of_int (round_half_even (x / pow2 e)) * pow2 e \<le> 0"
    by (simp add: mult_nonpos_nonneg less_imp_le)
  with False show ?thesis by (simp add: round_double_def Let_def e_def)
qed

lemma total_seconds_nonpos:
  assumes "d \<le> 0"
  shows "total_seconds d \<le> 0"
proof -
  from assms have "rat_of_int (d * 1000000000) \<le> 0" by (simp add: mult_nonpos_nonneg)
  then have "round_double (of_int (d * 1000000000)) \<le> 0" by (rule round_double_nonpos)
  then have "round_double (of_int (d * 1000000000)) / 1000000000 \<le> 0"
    by (simp add: divide_nonpos_pos)
  then show ?thesis unfolding total_seconds_def by (rule round_double_nonpos)
qed

lemma hours_nonpos:
  \<comment> \<open>a gap that is not positive gives a number of hours that is not positive\<close>
  assumes "d \<le> 0"
  shows "round_double (total_seconds d / 3600) \<le> 0"
proof -
  from total_seconds_nonpos[OF assms] have "total_seconds d / 3600 \<le> 0"
    by (simp add: divide_nonpos_pos)
  then show ?thesis by (rule round_double_nonpos)
qed

lemma hours_zero [simp]: "round_double (total_seconds 0 / 3600) = 0"
  by (simp add: total_seconds_def round_double_def)

subsection \<open>Rounding is monotone, and exact on the floats\<close>

lemma pow2_powi: "pow2 k = 2 powi k"
proof (cases "0 \<le> k")
  case True
  then show ?thesis by (simp add: pow2_def power_int_def)
next
  case False
  have "inverse (2::rat) ^ nat (- k) = 1 / 2 ^ nat (- k)"
    by (simp add: inverse_eq_divide power_one_over)
  with False show ?thesis by (simp only: pow2_def power_int_def if_False)
qed

lemma pow2_neq0 [simp]: "pow2 k \<noteq> 0"
  using pow2_pos[of k] by (rule less_imp_neq[symmetric])

lemma pow2_shift: "c = a + b \<Longrightarrow> pow2 c = pow2 a * pow2 b"
  by (simp add: pow2_powi power_int_add)

lemma pow2_numerals: "pow2 52 = of_int (2 ^ 52)" "pow2 53 = of_int (2 ^ 53)" "pow2 9 = 512"
  "pow2 0 = 1"
  by (simp_all add: pow2_def)

lemma pow2_add: "pow2 (a + b) = pow2 a * pow2 b"
  by (simp add: pow2_powi power_int_add)

lemma pow2_mono: "a \<le> b \<Longrightarrow> pow2 a \<le> pow2 b"
  by (simp add: pow2_powi power_int_increasing)

lemma pow2_strict_mono: "a < b \<Longrightarrow> pow2 a < pow2 b"
  by (simp add: pow2_powi power_int_strict_increasing)

lemma pow2_nat: "0 \<le> k \<Longrightarrow> pow2 k = 2 ^ nat k"
  by (simp add: pow2_def)

lemma pow2_less_imp: "pow2 a < pow2 b \<Longrightarrow> a < b"
  using pow2_mono[of b a] by (cases "a < b") auto

lemma round_half_even_of_int [simp]: "round_half_even (of_int n) = n"
  by (simp add: round_half_even_def)

lemma round_half_even_ge_floor: "\<lfloor>x\<rfloor> \<le> round_half_even x"
  by (simp add: round_half_even_def Let_def)

lemma round_half_even_le_floor: "round_half_even x \<le> \<lfloor>x\<rfloor> + 1"
  by (simp add: round_half_even_def Let_def)

lemma round_half_even_mono:
  assumes "x \<le> y"
  shows "round_half_even x \<le> round_half_even y"
proof (cases "\<lfloor>x\<rfloor> = \<lfloor>y\<rfloor>")
  case True
  from assms have "x - of_int \<lfloor>y\<rfloor> \<le> y - of_int \<lfloor>y\<rfloor>" by simp
  then show ?thesis
    unfolding round_half_even_def Let_def True by (auto split: if_splits)
next
  case False
  with floor_mono[OF assms] have "\<lfloor>x\<rfloor> + 1 \<le> \<lfloor>y\<rfloor>" by simp
  with round_half_even_le_floor[of x] round_half_even_ge_floor[of y] show ?thesis by simp
qed

lemma round_half_even_uminus: "round_half_even (- x) = - round_half_even x"
proof (cases "x = of_int \<lfloor>x\<rfloor>")
  case True
  then obtain n where "x = of_int n" ..
  then show ?thesis by (simp flip: of_int_minus)
next
  case False
  define n where "n = \<lfloor>x\<rfloor>"
  define f where "f = x - of_int n"
  from False have f0: "0 < f" and f1: "f < 1"
    unfolding f_def n_def by (simp_all add: order.strict_iff_order) linarith+
  have fl: "\<lfloor>- x\<rfloor> = - n - 1"
  proof (rule floor_unique)
    show "of_int (- n - 1) \<le> - x" using f1 unfolding f_def by simp
    show "- x < of_int (- n - 1) + 1" using f0 unfolding f_def by simp
  qed
  have fr: "- x - of_int (- n - 1) = 1 - f" unfolding f_def by simp
  have x: "round_half_even x
      = (if f < 1 / 2 then n else if 1 / 2 < f then n + 1 else if even n then n else n + 1)"
    by (simp add: round_half_even_def Let_def n_def f_def)
  have mx: "round_half_even (- x)
      = (if 1 - f < 1 / 2 then - n - 1 else if 1 / 2 < 1 - f then - n
         else if even (- n - 1) then - n - 1 else - n)"
    unfolding round_half_even_def Let_def fl fr by simp
  show ?thesis unfolding x mx by (auto split: if_splits)
qed

lemma exponent2_bounds:
  assumes "x \<noteq> 0"
  shows "pow2 (exponent2 x) \<le> \<bar>x\<bar>" and "\<bar>x\<bar> < pow2 (exponent2 x + 1)"
proof -
  obtain p q where pq: "quotient_of \<bar>x\<bar> = (p, q)" by (cases "quotient_of \<bar>x\<bar>")
  have q: "0 < q" by (rule quotient_of_denom_pos[OF pq])
  have a: "\<bar>x\<bar> = of_int p / of_int q" by (rule quotient_of_div[OF pq])
  from assms have "0 < \<bar>x\<bar>" by simp
  with a q have p: "0 < p" by (simp add: zero_less_divide_iff)
  define k where "k = bitlen p - bitlen q"
  from bitlen_bounds[OF p] have bp: "2 ^ nat (bitlen p - 1) \<le> p" "p < 2 ^ nat (bitlen p)"
    by simp_all
  from bitlen_bounds[OF q] have bq: "2 ^ nat (bitlen q - 1) \<le> q" "q < 2 ^ nat (bitlen q)"
    by simp_all
  have bp1: "1 \<le> bitlen p" using p bitlen_eq_zero_iff[of p] bitlen_nonneg[of p] by linarith
  have bq1: "1 \<le> bitlen q" using q bitlen_eq_zero_iff[of q] bitlen_nonneg[of q] by linarith
  have rp: "rat_of_int p < pow2 (bitlen p)" "pow2 (bitlen p - 1) \<le> rat_of_int p"
  proof -
    from bp(2) have "rat_of_int p < of_int (2 ^ nat (bitlen p))" by (simp only: of_int_less_iff)
    then show "rat_of_int p < pow2 (bitlen p)" using bp1 by (simp add: pow2_nat)
    from bp(1) have "rat_of_int (2 ^ nat (bitlen p - 1)) \<le> of_int p" by (simp only: of_int_le_iff)
    then show "pow2 (bitlen p - 1) \<le> rat_of_int p" using bp1 by (simp add: pow2_nat)
  qed
  have rq: "rat_of_int q < pow2 (bitlen q)" "pow2 (bitlen q - 1) \<le> rat_of_int q"
  proof -
    from bq(2) have "rat_of_int q < of_int (2 ^ nat (bitlen q))" by (simp only: of_int_less_iff)
    then show "rat_of_int q < pow2 (bitlen q)" using bq1 by (simp add: pow2_nat)
    from bq(1) have "rat_of_int (2 ^ nat (bitlen q - 1)) \<le> of_int q" by (simp only: of_int_le_iff)
    then show "pow2 (bitlen q - 1) \<le> rat_of_int q" using bq1 by (simp add: pow2_nat)
  qed
  have up: "\<bar>x\<bar> < pow2 (k + 1)"
  proof -
    have "rat_of_int p / of_int q < pow2 (bitlen p) / pow2 (bitlen q - 1)"
      using p rp(1) rq(2) by (intro frac_less) simp_all
    also have "pow2 (bitlen p) = pow2 (k + 1) * pow2 (bitlen q - 1)"
      by (rule pow2_shift) (simp add: k_def)
    finally show ?thesis unfolding a by simp
  qed
  have lo: "pow2 (k - 1) \<le> \<bar>x\<bar>"
  proof -
    have "pow2 (bitlen p - 1) / pow2 (bitlen q) \<le> rat_of_int p / of_int q"
      using p q rp(2) rq(1) by (intro frac_le) simp_all
    moreover have "pow2 (bitlen p - 1) = pow2 (k - 1) * pow2 (bitlen q)"
      by (rule pow2_shift) (simp add: k_def)
    ultimately show ?thesis unfolding a by simp
  qed
  have e: "exponent2 x = (if pow2 k \<le> \<bar>x\<bar> then k else k - 1)"
    by (simp add: exponent2_def pq k_def Let_def)
  show "pow2 (exponent2 x) \<le> \<bar>x\<bar>" unfolding e using lo by simp
  show "\<bar>x\<bar> < pow2 (exponent2 x + 1)" unfolding e using up by auto
qed

lemma exponent2_uminus [simp]: "exponent2 (- x) = exponent2 x"
  by (simp add: exponent2_def)

lemma round_double_uminus: "round_double (- x) = - round_double x"
  by (simp add: round_double_def Let_def round_half_even_uminus)

lemma round_double_nonneg:
  assumes "0 \<le> x"
  shows "0 \<le> round_double x"
  using round_double_nonpos[of "- x"] assms by (simp add: round_double_uminus)

lemma exponent2_mono:
  assumes "0 < x" and "x \<le> y"
  shows "exponent2 x \<le> exponent2 y"
proof (rule ccontr)
  assume "\<not> exponent2 x \<le> exponent2 y"
  then have "exponent2 y + 1 \<le> exponent2 x" by simp
  then have "pow2 (exponent2 y + 1) \<le> pow2 (exponent2 x)" by (rule pow2_mono)
  moreover from assms have "y \<noteq> 0" "x \<noteq> 0" by auto
  ultimately have "\<bar>y\<bar> < \<bar>x\<bar>"
    using exponent2_bounds(2)[of y] exponent2_bounds(1)[of x] by linarith
  with assms show False by simp
qed

lemma significand_bounds:
  assumes "0 < x"
  shows "of_int (2 ^ 52) \<le> x / pow2 (exponent2 x - 52)"
    and "x / pow2 (exponent2 x - 52) < of_int (2 ^ 53)"
proof -
  from assms have x: "x \<noteq> 0" "\<bar>x\<bar> = x" by simp_all
  have 1: "pow2 (exponent2 x) = pow2 52 * pow2 (exponent2 x - 52)"
    by (rule pow2_shift) simp
  have 2: "pow2 (exponent2 x + 1) = pow2 53 * pow2 (exponent2 x - 52)"
    by (rule pow2_shift) simp
  from exponent2_bounds(1)[OF x(1)] have "pow2 52 \<le> x / pow2 (exponent2 x - 52)"
    unfolding x(2) 1 by (simp add: pos_le_divide_eq)
  then show "of_int (2 ^ 52) \<le> x / pow2 (exponent2 x - 52)"
    by (simp only: pow2_numerals)
  from exponent2_bounds(2)[OF x(1)] have "x / pow2 (exponent2 x - 52) < pow2 53"
    unfolding x(2) 2 by (simp add: pos_divide_less_eq)
  then show "x / pow2 (exponent2 x - 52) < of_int (2 ^ 53)"
    by (simp only: pow2_numerals)
qed

lemma round_double_bounds:
  assumes "0 < x"
  shows "pow2 (exponent2 x) \<le> round_double x" and "round_double x \<le> pow2 (exponent2 x + 1)"
proof -
  define e where "e = exponent2 x - 52"
  define s where "s = x / pow2 e"
  from assms have rd: "round_double x = of_int (round_half_even s) * pow2 e"
    by (simp add: round_double_def Let_def e_def s_def)
  from significand_bounds[OF assms] have s: "of_int (2 ^ 52) \<le> s" "s \<le> of_int (2 ^ 53)"
    by (simp_all add: s_def e_def)
  from round_half_even_mono[OF s(1)] have lo: "2 ^ 52 \<le> round_half_even s"
    by (simp only: round_half_even_of_int)
  from round_half_even_mono[OF s(2)] have hi: "round_half_even s \<le> 2 ^ 53"
    by (simp only: round_half_even_of_int)
  have "pow2 (exponent2 x) = pow2 52 * pow2 e"
    by (rule pow2_shift) (simp add: e_def)
  then have "pow2 (exponent2 x) = of_int (2 ^ 52) * pow2 e"
    by (simp only: pow2_numerals)
  also have "\<dots> \<le> of_int (round_half_even s) * pow2 e"
    using lo by (intro mult_right_mono) (simp_all only: of_int_le_iff, simp add: less_imp_le)
  finally show "pow2 (exponent2 x) \<le> round_double x" unfolding rd .
  have "of_int (round_half_even s) * pow2 e \<le> of_int (2 ^ 53) * pow2 e"
    using hi by (intro mult_right_mono) (simp_all only: of_int_le_iff, simp add: less_imp_le)
  also have "of_int (2 ^ 53) * pow2 e = pow2 53 * pow2 e"
    by (simp only: pow2_numerals)
  also have "\<dots> = pow2 (exponent2 x + 1)"
    by (rule pow2_shift[symmetric]) (simp add: e_def)
  finally show "round_double x \<le> pow2 (exponent2 x + 1)" unfolding rd .
qed

lemma round_double_mono_pos:
  assumes "0 < x" and "x \<le> y"
  shows "round_double x \<le> round_double y"
proof (cases "exponent2 x = exponent2 y")
  case True
  define e where "e = exponent2 y - 52"
  from assms have y: "0 < y" by simp
  have "x / pow2 e \<le> y / pow2 e" using assms(2) by (simp add: divide_right_mono less_imp_le)
  then have "round_half_even (x / pow2 e) \<le> round_half_even (y / pow2 e)"
    by (rule round_half_even_mono)
  then have "rat_of_int (round_half_even (x / pow2 e)) * pow2 e
               \<le> of_int (round_half_even (y / pow2 e)) * pow2 e"
    by (intro mult_right_mono) (simp_all add: less_imp_le)
  with assms(1) y show ?thesis by (simp add: round_double_def Let_def True e_def)
next
  case False
  with exponent2_mono[OF assms] have "exponent2 x + 1 \<le> exponent2 y" by simp
  then have "pow2 (exponent2 x + 1) \<le> pow2 (exponent2 y)" by (rule pow2_mono)
  moreover from assms have y: "0 < y" by simp
  ultimately show ?thesis
    using round_double_bounds(2)[OF assms(1)] round_double_bounds(1)[OF y] by linarith
qed

lemma round_double_mono:
  assumes "x \<le> y"
  shows "round_double x \<le> round_double y"
proof -
  consider (pos) "0 < x" | (neg) "y < 0" | (mid) "x \<le> 0" "0 \<le> y" by linarith
  then show ?thesis
  proof cases
    case pos
    then show ?thesis using assms by (rule round_double_mono_pos)
  next
    case neg
    with assms have "0 < - y" "- y \<le> - x" by simp_all
    from round_double_mono_pos[OF this] show ?thesis by (simp add: round_double_uminus)
  next
    case mid
    with round_double_nonpos[of x] round_double_nonneg[of y] show ?thesis by simp
  qed
qed

lemma round_double_exact:
  assumes "\<bar>m\<bar> < 2 ^ 53"
  shows "round_double (of_int m * pow2 k) = of_int m * pow2 k"
proof (cases "m = 0")
  case True
  then show ?thesis by (simp add: round_double_def)
next
  case False
  define x where "x = rat_of_int m * pow2 k"
  define e where "e = exponent2 x - 52"
  from False have x0: "x \<noteq> 0" by (simp add: x_def)
  have "\<bar>x\<bar> = rat_of_int \<bar>m\<bar> * pow2 k" by (simp add: x_def abs_mult less_imp_le)
  also have "\<dots> < of_int (2 ^ 53) * pow2 k"
    using assms by (intro mult_strict_right_mono) (simp_all only: of_int_less_iff pow2_pos)
  also have "\<dots> = pow2 53 * pow2 k" by (simp only: pow2_numerals)
  also have "\<dots> = pow2 (53 + k)" by (rule pow2_shift[symmetric]) simp
  finally have "pow2 (exponent2 x) < pow2 (53 + k)"
    using exponent2_bounds(1)[OF x0] by simp
  then have "exponent2 x < 53 + k" by (rule pow2_less_imp)
  then have ek: "0 \<le> k - e" by (simp add: e_def)
  have "pow2 k = pow2 (k - e) * pow2 e" by (rule pow2_shift) simp
  then have "x / pow2 e = of_int m * pow2 (k - e)"
    by (simp add: x_def)
  also have "\<dots> = of_int (m * 2 ^ nat (k - e))" using ek by (simp add: pow2_nat)
  finally have s: "x / pow2 e = of_int (m * 2 ^ nat (k - e))" .
  have "round_double x = of_int (round_half_even (x / pow2 e)) * pow2 e"
    using x0 by (simp add: round_double_def Let_def e_def)
  also have "\<dots> = x / pow2 e * pow2 e"
    unfolding s by (simp only: round_half_even_of_int)
  also have "\<dots> = x" by simp
  finally show ?thesis unfolding x_def .
qed

lemma round_double_of_int:
  assumes "\<bar>m\<bar> < 2 ^ 53"
  shows "round_double (of_int m) = of_int m"
  using round_double_exact[OF assms, of 0] by (simp add: pow2_numerals)

lemma total_seconds_exact:
  assumes "\<bar>d\<bar> \<le> 4611686018"
  shows "total_seconds d = of_int d"
proof -
  have n: "rat_of_int (d * 1000000000) = of_int (d * 1953125) * pow2 9"
    by (simp add: pow2_numerals)
  from assms have "\<bar>d * 1953125\<bar> < 2 ^ 53" by (simp add: abs_mult)
  then have "round_double (of_int (d * 1953125) * pow2 9) = of_int (d * 1953125) * pow2 9"
    by (rule round_double_exact)
  then have 1: "round_double (of_int (d * 1000000000)) = of_int (d * 1000000000)"
    by (simp only: n)
  have 2: "rat_of_int (d * 1000000000) / 1000000000 = of_int d" by simp
  from assms have "\<bar>d\<bar> < 2 ^ 53" by simp
  then have 3: "round_double (of_int d) = of_int d" by (rule round_double_of_int)
  show ?thesis unfolding total_seconds_def by (simp only: 1 2 3)
qed

lemma scenario_B_gap: "round_double (total_seconds (36300 - 36000) / 3600) < 6"
  by code_simp

lemma hours_exact:
  assumes "\<bar>d\<bar> \<le> 4611686018"
  shows "round_double (total_seconds d / 3600) = round_double (of_int d / 3600)"
  by (simp only: total_seconds_exact[OF assms])

lemma linked_exact:
  assumes d: "\<bar>d\<bar> \<le> 4611686018" and g: "round_double g = g"
  shows "round_double (total_seconds d / 3600) < g \<Longrightarrow> of_int d / 3600 < g"
    and "of_int d / 3600 < g \<Longrightarrow> \<not> round_double (total_seconds d / 3600) < g
           \<Longrightarrow> round_double (of_int d / 3600) = g"
proof -
  show "of_int d / 3600 < g" if lt: "round_double (total_seconds d / 3600) < g"
  proof (rule ccontr)
    assume "\<not> of_int d / 3600 < g"
    then have "g \<le> of_int d / 3600" by simp
    then have "round_double g \<le> round_double (of_int d / 3600)" by (rule round_double_mono)
    with lt show False unfolding hours_exact[OF d] g by simp
  qed
  show "round_double (of_int d / 3600) = g"
    if "of_int d / 3600 < g" "\<not> round_double (total_seconds d / 3600) < g"
  proof -
    from that(1) have "of_int d / 3600 \<le> g" by simp
    then have "round_double (of_int d / 3600) \<le> round_double g" by (rule round_double_mono)
    with that(2) show ?thesis unfolding hours_exact[OF d] g by simp
  qed
qed

text \<open>
  C5.  In a run that returns, the rows of one encounter stand in the block in the order
  of their \<open>in_dttm\<close>, and two consecutive rows are in the same group exactly when the gap
  from the \<open>out_dttm\<close> of the first to the \<open>in_dttm\<close> of the second, in hours, is
  strictly below \<open>gap_hours\<close>.  The gap in hours is the float that the program computes:
  the seconds divided by 3600, rounded.  So a gap equal to \<open>gap_hours\<close> does not link, and
  a segment that starts when the previous one ends is merged with it for every positive
  \<open>gap_hours\<close> and not for \<open>gap_hours = 0\<close>.  For a \<open>gap_hours\<close> that is a float and a gap
  of at most 4611686018 seconds, the rows of a group have an exact quotient below
  \<open>gap_hours\<close>, an exact quotient equal to \<open>gap_hours\<close> does not link, and an exact
  quotient below \<open>gap_hours\<close> links unless it is rounded to \<open>gap_hours\<close>.
\<close>

theorem consecutive_segments_linked_iff:
  assumes "icu_block adt_df gap_hours = Inr blk"
    and "bs = filter (\<lambda>b. encounter_block b = e) blk"
    and "Suc k < length bs"
  shows "the (in_dttm (bs ! k)) \<le> the (in_dttm (bs ! Suc k))
       \<and> ((icu_group (bs ! k) = icu_group (bs ! Suc k)) \<longleftrightarrow>
            (\<exists>a b. out_dttm (bs ! k) = Some a \<and> in_dttm (bs ! Suc k) = Some b
                   \<and> round_double (total_seconds (b - a) / 3600) < gap_hours))
       \<and> (out_dttm (bs ! k) = Some a \<and> in_dttm (bs ! Suc k) = Some b
            \<and> round_double (total_seconds (b - a) / 3600) = gap_hours
            \<longrightarrow> icu_group (bs ! k) \<noteq> icu_group (bs ! Suc k))
       \<and> (out_dttm (bs ! k) = Some a \<and> in_dttm (bs ! Suc k) = Some a
            \<longrightarrow> (icu_group (bs ! k) = icu_group (bs ! Suc k)) = (0 < gap_hours))
       \<and> (out_dttm (bs ! k) = Some a \<and> in_dttm (bs ! Suc k) = Some b
            \<and> \<bar>b - a\<bar> \<le> 4611686018 \<and> round_double gap_hours = gap_hours
            \<longrightarrow> (icu_group (bs ! k) = icu_group (bs ! Suc k)
                   \<longrightarrow> of_int (b - a) / 3600 < gap_hours)
                \<and> (of_int (b - a) / 3600 = gap_hours
                   \<longrightarrow> icu_group (bs ! k) \<noteq> icu_group (bs ! Suc k))
                \<and> (of_int (b - a) / 3600 < gap_hours
                    \<and> icu_group (bs ! k) \<noteq> icu_group (bs ! Suc k)
                   \<longrightarrow> round_double (of_int (b - a) / 3600) = gap_hours))"
proof -
  note f = icu_block_encounter_facts[OF assms(1), of e, folded assms(2)]
  from assms(3) have k: "k < length bs" by simp
  have "sorted (map (\<lambda>b. the (in_dttm b)) bs)" by (rule f(3))
  then have "map (\<lambda>b. the (in_dttm b)) bs ! k \<le> map (\<lambda>b. the (in_dttm b)) bs ! Suc k"
    using assms(3) by (intro sorted_nth_mono) simp_all
  then have 1: "the (in_dttm (bs ! k)) \<le> the (in_dttm (bs ! Suc k))"
    using assms(3) k by simp
  have 2: "(icu_group (bs ! k) = icu_group (bs ! Suc k)) \<longleftrightarrow>
            (\<exists>a b. out_dttm (bs ! k) = Some a \<and> in_dttm (bs ! Suc k) = Some b
                   \<and> round_double (total_seconds (b - a) / 3600) < gap_hours)"
    using f(7)[rule_format, OF assms(3)] f(5)[rule_format, OF assms(3)]
    by (simp only: less_than_hours_between)
  have 3: "icu_group (bs ! k) \<noteq> icu_group (bs ! Suc k)"
    if "out_dttm (bs ! k) = Some a" "in_dttm (bs ! Suc k) = Some b"
       "round_double (total_seconds (b - a) / 3600) = gap_hours"
    unfolding 2 using that by auto
  have 4: "(icu_group (bs ! k) = icu_group (bs ! Suc k)) = (0 < gap_hours)"
    if "out_dttm (bs ! k) = Some a" "in_dttm (bs ! Suc k) = Some a"
    unfolding 2 using that by auto
  have 5: "(icu_group (bs ! k) = icu_group (bs ! Suc k)
                   \<longrightarrow> of_int (b - a) / 3600 < gap_hours)
                \<and> (of_int (b - a) / 3600 = gap_hours
                   \<longrightarrow> icu_group (bs ! k) \<noteq> icu_group (bs ! Suc k))
                \<and> (of_int (b - a) / 3600 < gap_hours
                    \<and> icu_group (bs ! k) \<noteq> icu_group (bs ! Suc k)
                   \<longrightarrow> round_double (of_int (b - a) / 3600) = gap_hours)"
    if h: "out_dttm (bs ! k) = Some a" "in_dttm (bs ! Suc k) = Some b"
      "\<bar>b - a\<bar> \<le> 4611686018" "round_double gap_hours = gap_hours"
  proof -
    have g: "(icu_group (bs ! k) = icu_group (bs ! Suc k))
               = (round_double (total_seconds (b - a) / 3600) < gap_hours)"
      unfolding 2 using h(1,2) by auto
    note l = linked_exact[OF h(3,4)]
    show ?thesis unfolding g using l by auto
  qed
  from 1 2 3 4 5 show ?thesis by blast
qed

lemma boundary_gap_block_eval: "icu_block boundary_gap float_tenth = Inr boundary_gap_block"
  by code_simp

lemma touching_block_eval: "icu_block touching 6 = Inr touching_block"
  by code_simp

lemma float_values:
  "round_double (total_seconds (3960 - 3600) / 3600) = float_tenth"
  "round_double float_tenth = float_tenth"
  "round_double 6 = 6"
  by code_simp+

theorem consecutive_segments_linked_iff_witness:
  "icu_block scenario_B 6 = Inr scenario_B_block
   \<and> icu_group (scenario_B_block ! 0) = icu_group (scenario_B_block ! Suc 0)
   \<and> rat_of_int (36300 - 36000) / 3600 < 6
   \<and> icu_block boundary_gap float_tenth = Inr boundary_gap_block
   \<and> icu_group (boundary_gap_block ! 0) \<noteq> icu_group (boundary_gap_block ! Suc 0)
   \<and> rat_of_int (3960 - 3600) / 3600 < float_tenth
   \<and> round_double (rat_of_int (3960 - 3600) / 3600) = float_tenth
   \<and> icu_block touching 6 = Inr touching_block
   \<and> icu_group (touching_block ! 0) = icu_group (touching_block ! Suc 0)"
proof -
  have bs: "scenario_B_block = filter (\<lambda>b. encounter_block b = 1) scenario_B_block"
    "boundary_gap_block = filter (\<lambda>b. encounter_block b = 1) boundary_gap_block"
    "touching_block = filter (\<lambda>b. encounter_block b = 1) touching_block"
    by (simp_all add: scenario_B_block_def boundary_gap_block_def touching_block_def)
  have len: "Suc 0 < length scenario_B_block" "Suc 0 < length boundary_gap_block"
    "Suc 0 < length touching_block"
    by (simp_all add: scenario_B_block_def boundary_gap_block_def touching_block_def)
  note B = consecutive_segments_linked_iff[OF scenario_B_block_eval bs(1) len(1),
      of 36000 36300]
  note G = consecutive_segments_linked_iff[OF boundary_gap_block_eval bs(2) len(2),
      of 3600 3960]
  note T = consecutive_segments_linked_iff[OF touching_block_eval bs(3) len(3), of 3600 3600]
  have rB: "out_dttm (scenario_B_block ! 0) = Some 36000"
    "in_dttm (scenario_B_block ! Suc 0) = Some 36300"
    by (simp_all add: scenario_B_block_def)
  have rG: "out_dttm (boundary_gap_block ! 0) = Some 3600"
    "in_dttm (boundary_gap_block ! Suc 0) = Some 3960"
    by (simp_all add: boundary_gap_block_def)
  have rT: "out_dttm (touching_block ! 0) = Some 3600"
    "in_dttm (touching_block ! Suc 0) = Some 3600"
    by (simp_all add: touching_block_def)
  from scenario_B_gap rB
  have "\<exists>a b. out_dttm (scenario_B_block ! 0) = Some a
                 \<and> in_dttm (scenario_B_block ! Suc 0) = Some b
                 \<and> round_double (total_seconds (b - a) / 3600) < 6"
    by blast
  with B[THEN conjunct2, THEN conjunct1]
  have 1: "icu_group (scenario_B_block ! 0) = icu_group (scenario_B_block ! Suc 0)"
    by blast
  have hB: "out_dttm (scenario_B_block ! 0) = Some 36000
      \<and> in_dttm (scenario_B_block ! Suc 0) = Some 36300
      \<and> \<bar>36300 - 36000\<bar> \<le> (4611686018::int) \<and> round_double 6 = 6"
    using rB float_values(3) by simp
  from B[THEN conjunct2, THEN conjunct2, THEN conjunct2, THEN conjunct2, rule_format, OF hB] 1
  have 2: "rat_of_int (36300 - 36000) / 3600 < 6" by blast
  have hG: "out_dttm (boundary_gap_block ! 0) = Some 3600
      \<and> in_dttm (boundary_gap_block ! Suc 0) = Some 3960
      \<and> round_double (total_seconds (3960 - 3600) / 3600) = float_tenth"
    using rG float_values(1) by simp
  from G[THEN conjunct2, THEN conjunct2, THEN conjunct1, rule_format, OF hG]
  have 3: "icu_group (boundary_gap_block ! 0) \<noteq> icu_group (boundary_gap_block ! Suc 0)" .
  have 4: "rat_of_int (3960 - 3600) / 3600 < float_tenth"
    by (simp add: float_tenth_def)
  have hG': "out_dttm (boundary_gap_block ! 0) = Some 3600
      \<and> in_dttm (boundary_gap_block ! Suc 0) = Some 3960
      \<and> \<bar>3960 - 3600\<bar> \<le> (4611686018::int) \<and> round_double float_tenth = float_tenth"
    using rG float_values(2) by simp
  from G[THEN conjunct2, THEN conjunct2, THEN conjunct2, THEN conjunct2, rule_format, OF hG']
    3 4
  have 5: "round_double (rat_of_int (3960 - 3600) / 3600) = float_tenth" by blast
  have hT: "out_dttm (touching_block ! 0) = Some 3600
      \<and> in_dttm (touching_block ! Suc 0) = Some 3600"
    using rT by simp
  from T[THEN conjunct2, THEN conjunct2, THEN conjunct2, THEN conjunct1, rule_format, OF hT]
  have 6: "icu_group (touching_block ! 0) = icu_group (touching_block ! Suc 0)" by simp
  from scenario_B_block_eval 1 2 boundary_gap_block_eval 3 4 5 touching_block_eval 6
  show ?thesis by blast
qed

text \<open>
  C6.  In a run that returns, the groups that the backward and forward fill gives to
  the rows of one encounter are those of the forward run-length segmentation of the
  specification over the link flags: two rows have the same \<open>icu_group\<close> exactly when
  the segmentation gives them the same group id.  Two adjacent rows share a group
  exactly when the earlier one is linked.
\<close>

theorem fill_refines_forward_segmentation:
  assumes "icu_block adt_df gap_hours = Inr blk"
    and "bs = filter (\<lambda>b. encounter_block b = e) blk"
    and "i < length bs" and "j < length bs"
  shows "((icu_group (bs ! i) = icu_group (bs ! j)) \<longleftrightarrow>
            (forward_segmentation 1 (map linked6hrs bs) ! i
               = forward_segmentation 1 (map linked6hrs bs) ! j))
       \<and> (Suc i < length bs \<longrightarrow>
            (icu_group (bs ! i) = icu_group (bs ! Suc i)) = linked6hrs (bs ! i))"
proof -
  note f = icu_block_encounter_facts[OF assms(1), of e, folded assms(2)]
  let ?xs = "map (\<lambda>b. the (icu_group b)) bs"
  let ?ys = "forward_segmentation 1 (map linked6hrs bs)"
  have some: "icu_group (bs ! k) \<noteq> None" if "k < length bs" for k
    using f(2) that by simp
  have the_eq: "(icu_group (bs ! a) = icu_group (bs ! b)) = (?xs ! a = ?xs ! b)"
    if "a < length bs" "b < length bs" for a b
    using some[OF that(1)] some[OF that(2)] that by auto
  have adj: "(?xs ! k = ?xs ! Suc k) = (?ys ! k = ?ys ! Suc k)" if "Suc k < length ?xs" for k
  proof -
    from that have k: "Suc k < length bs" "k < length bs" by simp_all
    have "(?xs ! k = ?xs ! Suc k) = linked6hrs (bs ! k)"
      using the_eq[OF k(2) k(1)] f(7)[rule_format, OF k(1)] by simp
    moreover have "(?ys ! k = ?ys ! Suc k) = linked6hrs (bs ! k)"
      using k by (simp add: forward_segmentation_Suc)
    ultimately show ?thesis by simp
  qed
  have "(?xs ! i = ?xs ! j) = (?ys ! i = ?ys ! j)"
    by (rule same_partition[OF f(4) sorted_forward_segmentation _ adj])
       (simp_all add: assms(3,4))
  with the_eq[OF assms(3,4)] f(7) show ?thesis by simp
qed

theorem fill_refines_forward_segmentation_witness:
  "icu_block scenario_B 6 = Inr scenario_B_block
   \<and> forward_segmentation 1 (map linked6hrs scenario_B_block) = [1, 1]
   \<and> icu_group (scenario_B_block ! 0) = icu_group (scenario_B_block ! 1)"
proof -
  have bs: "scenario_B_block = filter (\<lambda>b. encounter_block b = 1) scenario_B_block"
    by (simp add: scenario_B_block_def)
  have len: "0 < length scenario_B_block" "1 < length scenario_B_block"
    by (simp_all add: scenario_B_block_def)
  have fs: "forward_segmentation 1 (map linked6hrs scenario_B_block) = [1, 1]"
    by (simp add: scenario_B_block_def)
  from fill_refines_forward_segmentation[OF scenario_B_block_eval bs len] fs
  have "icu_group (scenario_B_block ! 0) = icu_group (scenario_B_block ! 1)"
    by simp
  with scenario_B_block_eval fs show ?thesis by simp
qed

section \<open>Aggregation, merge and final rank\<close>

lemma filter_eq_distinct:
  "distinct xs \<Longrightarrow> x \<in> set xs \<Longrightarrow> filter (\<lambda>y. y = x) xs = [x]"
  by (induction xs) (auto simp: filter_empty_conv)

lemma group_key_Some:
  "group_key r = Some k \<longleftrightarrow> encounter_block r = fst k \<and> icu_group r = Some (snd k)"
  by (cases k) (auto simp: group_key_def)

lemma icu_block2_lookup:
  assumes "b \<in> set blk" and "icu_group b = Some g"
  shows "filter (\<lambda>a. agg_encounter_block a = encounter_block b
                        \<and> Some (agg_icu_group a) = icu_group b) (icu_block2 blk)
         = [\<lparr>agg_encounter_block = encounter_block b, agg_icu_group = g,
             agg_in_dttm = agg_min (map in_dttm (members blk (encounter_block b) (Some g))),
             agg_out_dttm = agg_max (map out_dttm (members blk (encounter_block b) (Some g))),
             agg_location_type =
               agg_last (map location_type (members blk (encounter_block b) (Some g)))\<rparr>]"
proof -
  define ks where "ks = sort (remdups (List.map_filter group_key blk))"
  define mk where "mk = (\<lambda>k. let ms = filter (\<lambda>r. group_key r = Some k) blk
               in \<lparr>agg_encounter_block = fst k, agg_icu_group = snd k,
                   agg_in_dttm = agg_min (map in_dttm ms),
                   agg_out_dttm = agg_max (map out_dttm ms),
                   agg_location_type = agg_last (map location_type ms)\<rparr>)"
  have blk2: "icu_block2 blk = map mk ks"
    by (simp add: icu_block2_def mk_def ks_def)
  have dist: "distinct ks" by (simp add: ks_def)
  have "group_key b = Some (encounter_block b, g)"
    using assms(2) by (simp add: group_key_def)
  with assms(1) have mem: "(encounter_block b, g) \<in> set ks"
    by (force simp: ks_def set_map_filter)
  have P: "(agg_encounter_block (mk k) = encounter_block b
              \<and> Some (agg_icu_group (mk k)) = icu_group b) = (k = (encounter_block b, g))" for k
    using assms(2) by (cases k) (auto simp: mk_def Let_def)
  have "filter (\<lambda>a. agg_encounter_block a = encounter_block b
                        \<and> Some (agg_icu_group a) = icu_group b) (icu_block2 blk)
          = map mk (filter (\<lambda>k. k = (encounter_block b, g)) ks)"
    unfolding blk2 filter_map comp_def P ..
  also have "\<dots> = [mk (encounter_block b, g)]"
    by (simp only: filter_eq_distinct[OF dist mem] list.map)
  also have "filter (\<lambda>r. group_key r = Some (encounter_block b, g)) blk
               = members blk (encounter_block b) (Some g)"
    by (simp add: members_def group_key_Some)
  then have "mk (encounter_block b, g)
          = \<lparr>agg_encounter_block = encounter_block b, agg_icu_group = g,
             agg_in_dttm = agg_min (map in_dttm (members blk (encounter_block b) (Some g))),
             agg_out_dttm = agg_max (map out_dttm (members blk (encounter_block b) (Some g))),
             agg_location_type =
               agg_last (map location_type (members blk (encounter_block b) (Some g)))\<rparr>"
    by (simp add: mk_def Let_def)
  finally show ?thesis .
qed

lemma merge_left_icu_block2:
  assumes "\<forall>b\<in>set blk. icu_group b \<noteq> None"
  shows "merge_left blk (icu_block2 blk) =
           map (\<lambda>b. (final_row blk b)\<lparr>stay_icu_rank := icu_rank b\<rparr>) blk"
proof -
  have "(case filter (\<lambda>a. agg_encounter_block a = encounter_block b
                          \<and> Some (agg_icu_group a) = icu_group b) (icu_block2 blk) of
           [] \<Rightarrow> [\<lparr>stay_encounter_block = encounter_block b, stay_icu_group = icu_group b,
                    stay_icu_rank = icu_rank b, stay_in_dttm = None, stay_out_dttm = None,
                    stay_location_type = None\<rparr>]
         | ms \<Rightarrow> map (\<lambda>a. \<lparr>stay_encounter_block = encounter_block b,
                          stay_icu_group = icu_group b, stay_icu_rank = icu_rank b,
                          stay_in_dttm = agg_in_dttm a, stay_out_dttm = agg_out_dttm a,
                          stay_location_type = agg_location_type a\<rparr>) ms)
        = [(final_row blk b)\<lparr>stay_icu_rank := icu_rank b\<rparr>]"
    if b: "b \<in> set blk" for b
  proof -
    from assms b obtain g where g: "icu_group b = Some g" by auto
    show ?thesis
      unfolding icu_block2_lookup[OF b g]
      by (simp add: final_row_def g)
  qed
  then have eq: "map (\<lambda>r.
       case filter (\<lambda>a. agg_encounter_block a = encounter_block r
                          \<and> Some (agg_icu_group a) = icu_group r) (icu_block2 blk) of
         [] \<Rightarrow> [\<lparr>stay_encounter_block = encounter_block r, stay_icu_group = icu_group r,
                  stay_icu_rank = icu_rank r, stay_in_dttm = None, stay_out_dttm = None,
                  stay_location_type = None\<rparr>]
       | ms \<Rightarrow> map (\<lambda>a. \<lparr>stay_encounter_block = encounter_block r,
                          stay_icu_group = icu_group r, stay_icu_rank = icu_rank r,
                          stay_in_dttm = agg_in_dttm a, stay_out_dttm = agg_out_dttm a,
                          stay_location_type = agg_location_type a\<rparr>) ms) blk
     = map (\<lambda>b. [(final_row blk b)\<lparr>stay_icu_rank := icu_rank b\<rparr>]) blk"
    by (intro map_cong refl)
  show ?thesis
    by (simp only: merge_left_def eq concat_map_singleton)
qed

lemma dense_rank_cong_set:
  "set df = set df' \<Longrightarrow> dense_rank enc val df r = dense_rank enc val df' r"
  by (simp add: dense_rank_def)

lemma dense_rank_map:
  assumes "\<And>b. enc' (f b) = enc b" and "\<And>b. val' (f b) = val b"
  shows "dense_rank enc' val' (map f blk) (f b) = dense_rank enc val blk b"
proof -
  have "the ` val' ` {r' \<in> set (map f blk). enc' r' = enc' (f b)}
          = the ` val ` {b' \<in> set blk. enc b' = enc b}"
    by (auto simp: image_iff assms) (metis assms)+
  then show ?thesis by (simp add: dense_rank_def assms)
qed

lemma final_row_simps [simp]:
  "stay_encounter_block (final_row blk b) = encounter_block b"
  "stay_icu_group (final_row blk b) = icu_group b"
  "stay_icu_rank (final_row blk b) = dense_rank encounter_block icu_group blk b"
  "stay_in_dttm (final_row blk b)
     = agg_min (map in_dttm (members blk (encounter_block b) (icu_group b)))"
  "stay_out_dttm (final_row blk b)
     = agg_max (map out_dttm (members blk (encounter_block b) (icu_group b)))"
  "stay_location_type (final_row blk b)
     = agg_last (map location_type (members blk (encounter_block b) (icu_group b)))"
  by (simp_all add: final_row_def)

lemma final_row_rank_update:
  "(final_row blk b)\<lparr>stay_icu_rank := k\<rparr>\<lparr>stay_icu_rank := dense_rank encounter_block icu_group blk b\<rparr>
     = final_row blk b"
  by (simp add: final_row_def)

lemma icu_adt_final_Inr:
  assumes some: "\<forall>b\<in>set blk. icu_group b \<noteq> None"
  obtains out where "icu_adt_final blk = Inr out"
    and "length out = length blk"
    and "set out = final_row blk ` set blk"
proof -
  define g where "g = (\<lambda>b. (final_row blk b)\<lparr>stay_icu_rank := icu_rank b\<rparr>)"
  define sdf where "sdf = sort_key (\<lambda>r. (stay_encounter_block r, stay_icu_rank r,
                                       nulls_last_nat (stay_icu_group r))) (map g blk)"
  have merge: "merge_left blk (icu_block2 blk) = map g blk"
    unfolding g_def by (rule merge_left_icu_block2[OF some])
  have set_sdf: "set sdf = g ` set blk" by (simp add: sdf_def)
  have len_sdf: "length sdf = length blk" by (simp add: sdf_def)
  have grp: "stay_icu_group r \<noteq> None" if "r \<in> set sdf" for r
    using that some unfolding set_sdf by (auto simp: g_def)
  have fin: "icu_adt_final blk =
          (case final_icu_rank sdf of Inl e \<Rightarrow> Inl e
           | Inr ranks \<Rightarrow> Inr (map2 (\<lambda>r k. r\<lparr>stay_icu_rank := k\<rparr>) sdf ranks))"
    unfolding icu_adt_final_def merge sdf_def by (simp add: Let_def)
  have "final_icu_rank sdf \<noteq> Inl e" for e
    unfolding final_icu_rank_def dense_rank_pipeline_Inl using grp by auto
  then obtain ranks where ranks: "final_icu_rank sdf = Inr ranks"
    by (cases "final_icu_rank sdf") auto
  define rho where "rho = dense_rank stay_encounter_block stay_icu_group sdf"
  have rk: "ranks = map rho sdf"
    unfolding rho_def by (rule dense_rank_pipeline(2)[OF ranks[unfolded final_icu_rank_def]])
  define out where "out = map (\<lambda>r. r\<lparr>stay_icu_rank := rho r\<rparr>) sdf"
  have 1: "icu_adt_final blk = Inr out"
    unfolding fin ranks rk out_def by (simp add: map2_map_same)
  have 2: "length out = length blk" by (simp add: out_def len_sdf)
  have rho_g: "rho (g b) = dense_rank encounter_block icu_group blk b" for b
  proof -
    have "rho (g b) = dense_rank stay_encounter_block stay_icu_group (map g blk) (g b)"
      unfolding rho_def by (rule dense_rank_cong_set) (simp add: sdf_def)
    also have "\<dots> = dense_rank encounter_block icu_group blk b"
      by (rule dense_rank_map) (simp_all add: g_def)
    finally show ?thesis .
  qed
  have "(g b)\<lparr>stay_icu_rank := rho (g b)\<rparr> = final_row blk b" for b
    unfolding rho_g unfolding g_def by (rule final_row_rank_update)
  then have 3: "set out = final_row blk ` set blk"
    unfolding out_def by (simp add: set_sdf image_image)
  from 1 2 3 show thesis by (rule that)
qed

lemma icu_block_all_rows:
  assumes "icu_block adt_df gap = Inr blk" and "b \<in> set blk"
  shows "icu_group b \<noteq> None" and "in_dttm b \<noteq> None"
proof -
  from assms(2) have "b \<in> set (filter (\<lambda>x. encounter_block x = encounter_block b) blk)"
    by simp
  with icu_block_encounter_facts(1,2)[OF assms(1), of "encounter_block b"]
  show "icu_group b \<noteq> None" and "in_dttm b \<noteq> None" by blast+
qed

lemma stitch_icu_stays_Inr:
  assumes "stitch_icu_stays adt_df gap = Inr out"
  obtains blk where "icu_block adt_df gap = Inr blk"
    and "length out = length blk"
    and "set out = final_row blk ` set blk"
proof -
  from assms obtain blk where blk: "icu_block adt_df gap = Inr blk"
    and fin: "icu_adt_final blk = Inr out"
    by (auto simp: stitch_icu_stays_def split: sum.splits)
  have "\<forall>b\<in>set blk. icu_group b \<noteq> None"
    using icu_block_all_rows(1)[OF blk] by blast
  from icu_adt_final_Inr[OF this] fin blk show thesis
    by (metis Inr_inject that)
qed

lemma stitch_icu_stays_Inl:
  "stitch_icu_stays adt_df gap = Inl err \<longleftrightarrow> icu_adt adt_df = Inl err"
proof (cases "icu_block adt_df gap")
  case (Inl e)
  then have "icu_adt adt_df = Inl e" by (simp add: icu_block_Inl)
  with Inl show ?thesis by (simp add: stitch_icu_stays_def)
next
  case (Inr blk)
  have "\<forall>b\<in>set blk. icu_group b \<noteq> None"
    using icu_block_all_rows(1)[OF Inr] by blast
  from icu_adt_final_Inr[OF this] obtain out where "icu_adt_final blk = Inr out" by blast
  with Inr have "stitch_icu_stays adt_df gap = Inr out" by (simp add: stitch_icu_stays_def)
  moreover from Inr have "icu_adt adt_df \<noteq> Inl err"
    by (auto simp: icu_block_def split: sum.splits)
  ultimately show ?thesis by simp
qed

lemma stitch_icu_stays_of_block:
  assumes "icu_block adt_df gap = Inr blk"
  obtains out where "stitch_icu_stays adt_df gap = Inr out"
    and "length out = length blk"
    and "set out = final_row blk ` set blk"
proof -
  have "\<forall>b\<in>set blk. icu_group b \<noteq> None"
    using icu_block_all_rows(1)[OF assms] by blast
  from icu_adt_final_Inr[OF this] obtain out where o: "icu_adt_final blk = Inr out"
    "length out = length blk" "set out = final_row blk ` set blk" by blast
  with assms have "stitch_icu_stays adt_df gap = Inr out" by (simp add: stitch_icu_stays_def)
  from this o(2,3) show thesis by (rule that)
qed

section \<open>Aggregates of a group\<close>

lemma map_filter_id_valid: "None \<notin> set col \<Longrightarrow> List.map_filter id col = map the col"
proof (induction col)
  case Nil
  show ?case by simp
next
  case (Cons x col)
  then show ?case by (cases x) auto
qed

lemma fold_min_Min: "fold min xs (x::int) = Min (set (x # xs))"
  by (rule Min.set_eq_fold[symmetric])

lemma agg_min_valid:
  assumes "col \<noteq> []" and "None \<notin> set col"
  shows "agg_min col = Some (Min (the ` set col))"
proof -
  from assms(1) obtain x xs where col: "map the col = x # xs" by (cases col) auto
  have "agg_min col = Some (fold min xs x)"
    by (simp add: agg_min_def map_filter_id_valid[OF assms(2)] col)
  also have "fold min xs x = Min (set (map the col))"
    unfolding col by (rule fold_min_Min)
  finally show ?thesis by simp
qed

lemma sorted_two_keys:
  assumes "sorted (map f xs)" and "sorted (map g xs)"
    and "x \<in> set xs" and "y \<in> set xs" and "f x < f y"
  shows "g x \<le> g y"
proof -
  from assms(3) obtain i where i: "i < length xs" "xs ! i = x" by (auto simp: in_set_conv_nth)
  from assms(4) obtain j where j: "j < length xs" "xs ! j = y" by (auto simp: in_set_conv_nth)
  have "i \<le> j"
  proof (rule ccontr)
    assume "\<not> i \<le> j"
    then have "j \<le> i" by simp
    with assms(1) i have "map f xs ! j \<le> map f xs ! i" by (intro sorted_nth_mono) simp_all
    with i j assms(5) show False by simp
  qed
  with assms(2) j have "map g xs ! i \<le> map g xs ! j" by (intro sorted_nth_mono) simp_all
  with i j show ?thesis by simp
qed

lemma members_subset:
  "set (members blk e g) = {b \<in> set blk. encounter_block b = e \<and> icu_group b = g}"
  by (auto simp: members_def)

lemma group_start_mono:
  \<comment> \<open>within an encounter, a later group does not start earlier\<close>
  assumes ok: "icu_block adt_df gap = Inr blk"
    and b1: "b1 \<in> set blk" and b2: "b2 \<in> set blk"
    and enc: "encounter_block b1 = encounter_block b2"
    and le: "the (icu_group b1) \<le> the (icu_group b2)"
  shows "\<exists>a c. stay_in_dttm (final_row blk b1) = Some a
             \<and> stay_in_dttm (final_row blk b2) = Some c \<and> a \<le> c"
proof -
  define e where "e = encounter_block b1"
  define bs where "bs = filter (\<lambda>b. encounter_block b = e) blk"
  note f = icu_block_encounter_facts[OF ok, of e, folded bs_def]
  define m1 where "m1 = members blk e (icu_group b1)"
  define m2 where "m2 = members blk e (icu_group b2)"
  have sub1: "set m1 \<subseteq> set bs" and sub2: "set m2 \<subseteq> set bs"
    by (auto simp: m1_def m2_def bs_def members_subset)
  have in1: "b1 \<in> set m1" using b1 by (simp add: m1_def members_subset e_def)
  have in2: "b2 \<in> set m2" using b2 enc by (simp add: m2_def members_subset e_def)
  have v1: "None \<notin> set (map in_dttm m1)"
  proof
    assume "None \<in> set (map in_dttm m1)"
    then obtain x where "x \<in> set m1" "None = in_dttm x" by auto
    with sub1 f(1) show False by (metis subsetD)
  qed
  have v2: "None \<notin> set (map in_dttm m2)"
  proof
    assume "None \<in> set (map in_dttm m2)"
    then obtain x where "x \<in> set m2" "None = in_dttm x" by auto
    with sub2 f(1) show False by (metis subsetD)
  qed
  have ne1: "map in_dttm m1 \<noteq> []" using in1 by auto
  have ne2: "map in_dttm m2 \<noteq> []" using in2 by auto
  define a where "a = Min (the ` set (map in_dttm m1))"
  define c where "c = Min (the ` set (map in_dttm m2))"
  have A: "stay_in_dttm (final_row blk b1) = Some a"
    using agg_min_valid[OF ne1 v1] by (simp add: m1_def e_def a_def)
  have C: "stay_in_dttm (final_row blk b2) = Some c"
    using agg_min_valid[OF ne2 v2] enc by (simp add: m2_def e_def c_def)
  have "a \<le> c"
  proof (cases "the (icu_group b1) = the (icu_group b2)")
    case True
    have "icu_group b1 \<noteq> None" "icu_group b2 \<noteq> None"
      using icu_block_all_rows(1)[OF ok] b1 b2 by blast+
    with True have "icu_group b1 = icu_group b2" by auto
    then show ?thesis by (simp add: a_def c_def m1_def m2_def)
  next
    case False
    with le have lt: "the (icu_group b1) < the (icu_group b2)" by simp
    have "c \<in> the ` set (map in_dttm m2)"
      unfolding c_def using ne2 by (intro Min_in) auto
    then obtain x2 where x2: "x2 \<in> set m2" "c = the (in_dttm x2)" by auto
    have "a \<le> the (in_dttm b1)"
      unfolding a_def using in1 by (intro Min_le) auto
    also have "the (in_dttm b1) \<le> the (in_dttm x2)"
    proof (rule sorted_two_keys[OF f(4) f(3)])
      show "b1 \<in> set bs" using in1 sub1 by blast
      show "x2 \<in> set bs" using x2 sub2 by blast
      from x2 have "icu_group x2 = icu_group b2" by (simp add: m2_def members_subset)
      with lt show "the (icu_group b1) < the (icu_group x2)" by simp
    qed
    finally show ?thesis using x2 by simp
  qed
  with A C show ?thesis by blast
qed

lemma final_row_cong:
  "encounter_block b1 = encounter_block b2 \<Longrightarrow> icu_group b1 = icu_group b2
     \<Longrightarrow> final_row blk b1 = final_row blk b2"
  by (simp add: final_row_def dense_rank_def)

lemma length_icu_block:
  assumes "icu_block adt_df gap = Inr blk"
  shows "length blk = card (set (icu_adt_df adt_df))"
proof -
  from assms obtain rows where rows: "icu_adt adt_df = Inr rows"
    and blk: "blk = icu_block_groups (icu_block_gaps gap rows)"
    by (auto simp: icu_block_Inr)
  have "length blk = card (set rows)"
    unfolding blk by (simp add: length_drop_duplicates)
  also have "\<dots> = card (adt_row.truncate ` set rows)"
    by (rule card_image[symmetric]) (rule icu_adt_truncate(2)[OF rows])
  also have "adt_row.truncate ` set rows = set (icu_adt_df adt_df)"
    using icu_adt_truncate(1)[OF rows] by simp
  finally show ?thesis .
qed

lemma scenario_B_stays_eval: "stitch_icu_stays scenario_B 6 = Inr scenario_B_stays"
  by code_simp

lemma nested_stays_eval: "stitch_icu_stays nested_adt 6 = Inr nested_stays"
  by code_simp

lemma scenario_B_not_one_row: "\<not> one_row_per_group scenario_B_stays"
  by (simp add: one_row_per_group_def scenario_B_stays_def)

text \<open>
  C1, as stated, fails: the two segments of scenario B are merged into one group, and
  the output has one row for each of them, both with the same \<open>encounter_block\<close> and
  \<open>icu_group\<close>.
\<close>

theorem one_row_per_group_counterexample:
  "stitch_icu_stays scenario_B 6 = Inr scenario_B_stays \<and> \<not> one_row_per_group scenario_B_stays"
  using scenario_B_stays_eval scenario_B_not_one_row by (rule conjI)

text \<open>
  C1, amended.  A run that returns gives one output row for every distinct ICU or
  stepdown input row (a group merged from several segments appears once for each of
  them), and output rows with the same \<open>encounter_block\<close> and \<open>icu_group\<close> are equal in
  every column.
\<close>

theorem rows_of_a_group_identical:
  assumes "stitch_icu_stays adt_df gap_hours = Inr out"
  shows "length out = card (set (icu_adt_df adt_df))
       \<and> (\<forall>r1\<in>set out. \<forall>r2\<in>set out.
            stay_encounter_block r1 = stay_encounter_block r2
            \<and> stay_icu_group r1 = stay_icu_group r2 \<longrightarrow> r1 = r2)"
proof -
  from assms obtain blk where blk: "icu_block adt_df gap_hours = Inr blk"
    and len: "length out = length blk" and out: "set out = final_row blk ` set blk"
    by (rule stitch_icu_stays_Inr)
  have eq: "r1 = r2"
    if "r1 \<in> set out" "r2 \<in> set out" "stay_encounter_block r1 = stay_encounter_block r2"
       "stay_icu_group r1 = stay_icu_group r2" for r1 r2
  proof -
    from that(1,2) out obtain b1 b2 where b: "r1 = final_row blk b1" "r2 = final_row blk b2"
      by auto
    from that(3,4) have "encounter_block b1 = encounter_block b2" "icu_group b1 = icu_group b2"
      unfolding b by simp_all
    then show ?thesis unfolding b by (rule final_row_cong)
  qed
  have "length out = card (set (icu_adt_df adt_df))"
    using len length_icu_block[OF blk] by simp
  with eq show ?thesis by blast
qed

theorem rows_of_a_group_identical_witness:
  "stitch_icu_stays scenario_B 6 = Inr scenario_B_stays
   \<and> card (set (icu_adt_df scenario_B)) = 2"
proof -
  from rows_of_a_group_identical[OF scenario_B_stays_eval]
  have "length scenario_B_stays = card (set (icu_adt_df scenario_B))" by (rule conjunct1)
  moreover have "length scenario_B_stays = 2" by (simp add: scenario_B_stays_def)
  ultimately have "card (set (icu_adt_df scenario_B)) = 2" by simp
  with scenario_B_stays_eval show ?thesis by (rule conjI)
qed

lemma final_rows_of_encounter:
  assumes "set out = final_row blk ` set blk"
  shows "{r \<in> set out. stay_encounter_block r = e}
           = final_row blk ` {b \<in> set blk. encounter_block b = e}"
  unfolding assms by auto

lemma final_rank_less_iff:
  assumes "b1 \<in> set blk" and "b2 \<in> set blk" and "encounter_block b1 = encounter_block b2"
  shows "stay_icu_rank (final_row blk b1) < stay_icu_rank (final_row blk b2)
           \<longleftrightarrow> the (icu_group b1) < the (icu_group b2)"
  using dense_rank_less_iff[OF assms, where val = icu_group] by simp

text \<open>
  C7.  In a run that returns, the final ranks of the rows of an encounter are exactly
  \<open>1, \<dots>, k\<close>, where \<open>k\<close> is the number of groups of the encounter, and the rank
  orders the groups by their aggregated \<open>in_dttm\<close>, then by \<open>icu_group\<close>.
\<close>

theorem final_rank_dense:
  assumes "stitch_icu_stays adt_df gap_hours = Inr out"
  shows "stay_icu_rank ` {r \<in> set out. stay_encounter_block r = e}
           = {1..card (stay_icu_group ` {r \<in> set out. stay_encounter_block r = e})}
       \<and> (\<forall>r1\<in>set out. \<forall>r2\<in>set out.
            stay_encounter_block r1 = stay_encounter_block r2 \<longrightarrow>
              (stay_icu_rank r1 < stay_icu_rank r2 \<longleftrightarrow>
                 (the (stay_in_dttm r1), the (stay_icu_group r1))
                   < (the (stay_in_dttm r2), the (stay_icu_group r2))))"
proof -
  from assms obtain blk where blk: "icu_block adt_df gap_hours = Inr blk"
    and out: "set out = final_row blk ` set blk"
    by (rule stitch_icu_stays_Inr)
  define B where "B = {b \<in> set blk. encounter_block b = e}"
  have R: "{r \<in> set out. stay_encounter_block r = e} = final_row blk ` B"
    unfolding B_def by (rule final_rows_of_encounter[OF out])
  have some: "icu_group b \<noteq> None" if "b \<in> B" for b
    using that icu_block_all_rows(1)[OF blk] by (simp add: B_def)
  have "stay_icu_rank ` final_row blk ` B = dense_rank encounter_block icu_group blk ` B"
    by (simp add: image_image)
  also have "\<dots> = {1..card (the ` icu_group ` B)}"
    unfolding B_def by (rule dense_rank_image)
  also have "card (the ` icu_group ` B) = card (icu_group ` B)"
  proof (rule card_image)
    show "inj_on the (icu_group ` B)"
    proof (rule inj_onI)
      fix x y assume "x \<in> icu_group ` B" "y \<in> icu_group ` B" "the x = the y"
      moreover from this some have "x \<noteq> None" "y \<noteq> None" by auto
      ultimately show "x = y" by auto
    qed
  qed
  also have "icu_group ` B = stay_icu_group ` final_row blk ` B"
    by (simp add: image_image)
  finally have 1: "stay_icu_rank ` {r \<in> set out. stay_encounter_block r = e}
           = {1..card (stay_icu_group ` {r \<in> set out. stay_encounter_block r = e})}"
    unfolding R .
  have 2: "stay_icu_rank r1 < stay_icu_rank r2 \<longleftrightarrow>
             (the (stay_in_dttm r1), the (stay_icu_group r1))
               < (the (stay_in_dttm r2), the (stay_icu_group r2))"
    if r1: "r1 \<in> set out" and r2: "r2 \<in> set out"
      and enc: "stay_encounter_block r1 = stay_encounter_block r2" for r1 r2
  proof -
    from r1 r2 out obtain b1 b2 where b: "b1 \<in> set blk" "b2 \<in> set blk"
      "r1 = final_row blk b1" "r2 = final_row blk b2" by auto
    from enc have e12: "encounter_block b1 = encounter_block b2" unfolding b by simp
    have rk: "stay_icu_rank r1 < stay_icu_rank r2 \<longleftrightarrow> the (icu_group b1) < the (icu_group b2)"
      unfolding b by (rule final_rank_less_iff[OF b(1,2) e12])
    have g: "stay_icu_group r1 = icu_group b1" "stay_icu_group r2 = icu_group b2"
      unfolding b by simp_all
    consider (lt) "the (icu_group b1) < the (icu_group b2)"
      | (eq) "the (icu_group b1) = the (icu_group b2)"
      | (gt) "the (icu_group b2) < the (icu_group b1)"
      by (rule linorder_cases)
    then show ?thesis
    proof cases
      case lt
      then have "the (icu_group b1) \<le> the (icu_group b2)" by simp
      from group_start_mono[OF blk b(1,2) e12 this]
      have "the (stay_in_dttm r1) \<le> the (stay_in_dttm r2)" unfolding b by auto
      with lt rk g show ?thesis by auto
    next
      case eq
      have "icu_group b1 \<noteq> None" "icu_group b2 \<noteq> None"
        using icu_block_all_rows(1)[OF blk] b(1,2) by blast+
      with eq have "icu_group b1 = icu_group b2" by auto
      with e12 have "r1 = r2" unfolding b by (rule final_row_cong)
      then show ?thesis by simp
    next
      case gt
      then have "the (icu_group b2) \<le> the (icu_group b1)" by simp
      from group_start_mono[OF blk b(2,1) e12[symmetric] this]
      have "the (stay_in_dttm r2) \<le> the (stay_in_dttm r1)" unfolding b by auto
      with gt rk g show ?thesis by auto
    qed
  qed
  from 1 2 show ?thesis by blast
qed

lemma nested_rows: "nested_stays ! 0 \<in> set nested_stays" "nested_stays ! 2 \<in> set nested_stays"
  by (simp_all add: nested_stays_def)

theorem final_rank_dense_witness:
  "stitch_icu_stays nested_adt 6 = Inr nested_stays
   \<and> stay_icu_rank (nested_stays ! 0) < stay_icu_rank (nested_stays ! 2)
   \<and> (the (stay_in_dttm (nested_stays ! 0)), the (stay_icu_group (nested_stays ! 0)))
       < (the (stay_in_dttm (nested_stays ! 2)), the (stay_icu_group (nested_stays ! 2)))"
proof -
  have enc: "stay_encounter_block (nested_stays ! 0) = stay_encounter_block (nested_stays ! 2)"
    by (simp add: nested_stays_def)
  have rk: "stay_icu_rank (nested_stays ! 0) < stay_icu_rank (nested_stays ! 2)"
    by (simp add: nested_stays_def)
  from final_rank_dense[OF nested_stays_eval, of 1, THEN conjunct2, rule_format,
      OF nested_rows enc] rk
  have "(the (stay_in_dttm (nested_stays ! 0)), the (stay_icu_group (nested_stays ! 0)))
       < (the (stay_in_dttm (nested_stays ! 2)), the (stay_icu_group (nested_stays ! 2)))"
    by blast
  with nested_stays_eval rk show ?thesis by blast
qed

text \<open>
  C2, as stated, fails: in the nested example the group of rank 1 runs from hour 0 to
  hour 100 and the group of rank 2 from hour 50 to hour 60.
\<close>

lemma nested_overlap: "\<not> increasing_disjoint nested_stays"
proof
  assume a: "increasing_disjoint nested_stays"
  have h: "stay_encounter_block (nested_stays ! 0) = stay_encounter_block (nested_stays ! 2)
         \<and> stay_icu_rank (nested_stays ! 0) < stay_icu_rank (nested_stays ! 2)"
    by (simp add: nested_stays_def)
  from a nested_rows h
  have "\<exists>a b c. stay_in_dttm (nested_stays ! 0) = Some a
                  \<and> stay_out_dttm (nested_stays ! 0) = Some b
                  \<and> stay_in_dttm (nested_stays ! 2) = Some c \<and> a < c \<and> b < c"
    unfolding increasing_disjoint_def by blast
  then show False by (simp add: nested_stays_def)
qed

theorem increasing_disjoint_counterexample:
  "stitch_icu_stays nested_adt 6 = Inr nested_stays \<and> \<not> increasing_disjoint nested_stays"
  using nested_stays_eval nested_overlap by (rule conjI)

lemma icu_adt_df_filter:
  assumes "\<And>r. icu_mask r \<Longrightarrow> P r"
  shows "icu_adt_df (filter P adt_df) = icu_adt_df adt_df"
  using assms by (auto simp: icu_adt_df_def intro: filter_cong)

lemma stitch_icu_stays_cong:
  assumes "icu_adt_df a = icu_adt_df b"
  shows "stitch_icu_stays a gap_hours = stitch_icu_stays b gap_hours"
  using assms by (simp add: stitch_icu_stays_def icu_block_def icu_adt_def)

lemma icu_mask_iff:
  "icu_mask r \<longleftrightarrow>
     map_option str_lower (location_category r) \<in> {Some ''icu'', Some ''stepdown''}"
  by (cases "location_category r") (auto simp: icu_mask_def)

text \<open>
  C10.  The result of stitch, a table or an error, is the result on the rows whose
  lower-cased \<open>location_category\<close> is \<open>icu\<close> or \<open>stepdown\<close>, and a row with a null
  \<open>location_category\<close> can be removed from the input without changing it.
\<close>

theorem null_location_category_dropped:
  "stitch_icu_stays adt_df gap_hours
     = stitch_icu_stays
         (filter (\<lambda>r. map_option str_lower (location_category r)
                         \<in> {Some ''icu'', Some ''stepdown''}) adt_df) gap_hours
   \<and> (location_category r = None \<longrightarrow>
        stitch_icu_stays (xs @ r # ys) gap_hours = stitch_icu_stays (xs @ ys) gap_hours)"
proof
  have "icu_adt_df adt_df
          = icu_adt_df (filter (\<lambda>r. map_option str_lower (location_category r)
                                      \<in> {Some ''icu'', Some ''stepdown''}) adt_df)"
    by (rule icu_adt_df_filter[symmetric]) (simp only: icu_mask_iff)
  then show "stitch_icu_stays adt_df gap_hours
     = stitch_icu_stays
         (filter (\<lambda>r. map_option str_lower (location_category r)
                         \<in> {Some ''icu'', Some ''stepdown''}) adt_df) gap_hours"
    by (rule stitch_icu_stays_cong)
  show "location_category r = None \<longrightarrow>
        stitch_icu_stays (xs @ r # ys) gap_hours = stitch_icu_stays (xs @ ys) gap_hours"
  proof
    assume "location_category r = None"
    then have "\<not> icu_mask r" by (simp add: icu_mask_def)
    then have "icu_adt_df (xs @ r # ys) = icu_adt_df (xs @ ys)"
      by (simp add: icu_adt_df_def)
    then show "stitch_icu_stays (xs @ r # ys) gap_hours = stitch_icu_stays (xs @ ys) gap_hours"
      by (rule stitch_icu_stays_cong)
  qed
qed

theorem null_location_category_dropped_witness:
  "location_category uncategorised = None
   \<and> stitch_icu_stays ([] @ uncategorised # scenario_B) 6 = Inr scenario_B_stays"
proof -
  have n: "location_category uncategorised = None"
    by (simp add: uncategorised_def segment_def)
  from null_location_category_dropped[of scenario_B 6 uncategorised "[]" scenario_B, THEN conjunct2,
      rule_format, OF n]
  have "stitch_icu_stays ([] @ uncategorised # scenario_B) 6 = stitch_icu_stays scenario_B 6"
    by simp
  with scenario_B_stays_eval n show ?thesis by simp
qed

lemma nested_block_eval: "icu_block nested_adt 6 = Inr nested_block"
  by code_simp

lemma nested_type_differs:
  "stay_location_type (nested_stays ! 0)
     \<noteq> location_type_of_latest_out
         (members nested_block (stay_encounter_block (nested_stays ! 0))
            (stay_icu_group (nested_stays ! 0)))"
  by (simp add: nested_stays_def location_type_of_latest_out_def members_def nested_block_def
      agg_max_def List.map_filter_simps)

text \<open>
  C3, as stated, fails: in the nested example the first group has the members
  \<open>MICU\<close> (hours 0 to 100) and \<open>CVICU\<close> (hours 10 to 20).  The member with the latest
  \<open>out_dttm\<close> is \<open>MICU\<close>; the output row carries \<open>CVICU\<close>.
\<close>

theorem location_type_latest_out_counterexample:
  "icu_block nested_adt 6 = Inr nested_block
   \<and> stitch_icu_stays nested_adt 6 = Inr nested_stays
   \<and> stay_location_type (nested_stays ! 0)
       \<noteq> location_type_of_latest_out
           (members nested_block (stay_encounter_block (nested_stays ! 0))
              (stay_icu_group (nested_stays ! 0)))"
  using nested_block_eval nested_stays_eval nested_type_differs by (intro conjI)

lemma agg_last_last:
  assumes "col \<noteq> []" and "last col \<noteq> None"
  shows "agg_last col = last col"
proof -
  from assms(1) have col: "col = butlast col @ [last col]" by simp
  from assms(2) obtain v where v: "last col = Some v" by auto
  have "List.map_filter id col = List.map_filter id (butlast col) @ [v]"
    by (subst col) (simp add: List.map_filter_def v)
  then show ?thesis by (simp add: agg_last_def v)
qed

lemma filter_last:
  assumes "ms \<noteq> []" and "P (last ms)"
  shows "filter P ms = filter P (butlast ms) @ [last ms]"
proof -
  from assms(1) have "filter P ms = filter P (butlast ms @ [last ms])" by simp
  also have "\<dots> = filter P (butlast ms) @ [last ms]" using assms(2) by simp
  finally show ?thesis .
qed

lemma latest_out_last:
  assumes "ms \<noteq> []" and "out_dttm (last ms) = agg_max (map out_dttm ms)"
  shows "location_type_of_latest_out ms = location_type (last ms)"
  unfolding location_type_of_latest_out_def
  by (subst filter_last[OF assms(1)]) (simp_all add: assms(2))

lemma sorted_members:
  assumes ok: "icu_block adt_df gap = Inr blk"
  shows "sorted (map (\<lambda>m. the (in_dttm m)) (members blk e g))"
proof -
  have "members blk e g = filter (\<lambda>r. icu_group r = g) (filter (\<lambda>b. encounter_block b = e) blk)"
    by (simp add: members_def conj_commute)
  moreover have "sorted (map (\<lambda>b. the (in_dttm b)) (filter (\<lambda>b. encounter_block b = e) blk))"
    by (rule icu_block_encounter_facts(3)[OF ok])
  ultimately show ?thesis
    by (simp only: sorted_filter)
qed

lemma map_filter_id_map:
  "List.map_filter id (map f ms) = map (\<lambda>m. the (f m)) (filter (\<lambda>m. f m \<noteq> None) ms)"
  by (induction ms) (auto simp: List.map_filter_simps split: option.splits)

lemma agg_last_filter:
  "agg_last (map f ms)
     = (case rev (filter (\<lambda>m. f m \<noteq> None) ms) of [] \<Rightarrow> None | m # _ \<Rightarrow> f m)"
proof (cases "rev (filter (\<lambda>m. f m \<noteq> None) ms)")
  case Nil
  then show ?thesis by (simp add: agg_last_def map_filter_id_map rev_map)
next
  case (Cons m rest)
  then have "m \<in> set (filter (\<lambda>m. f m \<noteq> None) ms)"
    by (metis list.set_intros(1) set_rev)
  then have "f m \<noteq> None" by simp
  with Cons show ?thesis by (auto simp: agg_last_def map_filter_id_map rev_map)
qed

text \<open>
  C3, amended.  In a run that returns, the members of the group of an output row stand
  in the block in the order of their \<open>in_dttm\<close>, and the output \<open>location_type\<close> is the
  \<open>location_type\<close> of the last member in that order that has one (a null when no member
  has one), whatever the \<open>out_dttm\<close> of the members.  So it is the \<open>location_type\<close> of the
  member that comes last, when that member has one.  When that member also has the
  latest \<open>out_dttm\<close> of the group, this is the \<open>location_type\<close> of the specification; the
  condition is sufficient for the two to agree.
\<close>

theorem location_type_last_member:
  assumes "stitch_icu_stays adt_df gap_hours = Inr out"
    and "icu_block adt_df gap_hours = Inr blk"
    and "r \<in> set out"
    and "ms = members blk (stay_encounter_block r) (stay_icu_group r)"
  shows "ms \<noteq> []
       \<and> sorted (map (\<lambda>m. the (in_dttm m)) ms)
       \<and> stay_location_type r
           = (case rev (filter (\<lambda>m. location_type m \<noteq> None) ms) of
                [] \<Rightarrow> None
              | m # _ \<Rightarrow> location_type m)
       \<and> (location_type (last ms) \<noteq> None \<longrightarrow> stay_location_type r = location_type (last ms))
       \<and> (location_type (last ms) \<noteq> None \<and> out_dttm (last ms) = agg_max (map out_dttm ms)
            \<longrightarrow> stay_location_type r = location_type_of_latest_out ms)"
proof -
  from assms(1) obtain blk' where blk': "icu_block adt_df gap_hours = Inr blk'"
    and out: "set out = final_row blk' ` set blk'"
    by (rule stitch_icu_stays_Inr)
  from blk' assms(2) have "blk' = blk" by simp
  with out assms(3) obtain b where b: "b \<in> set blk" "r = final_row blk b" by auto
  have ms: "ms = members blk (encounter_block b) (icu_group b)"
    unfolding assms(4) b by simp
  have "b \<in> set ms" unfolding ms using b(1) by (simp add: members_subset)
  then have ne: "ms \<noteq> []" by auto
  have srt: "sorted (map (\<lambda>m. the (in_dttm m)) ms)"
    unfolding assms(4) by (rule sorted_members[OF assms(2)])
  have ty: "stay_location_type r = agg_last (map location_type ms)"
    unfolding b ms by simp
  have l: "last (map location_type ms) = location_type (last ms)"
    using ne by (simp add: last_map)
  have 0: "stay_location_type r
           = (case rev (filter (\<lambda>m. location_type m \<noteq> None) ms) of
                [] \<Rightarrow> None
              | m # _ \<Rightarrow> location_type m)"
    unfolding ty by (rule agg_last_filter)
  have 1: "stay_location_type r = location_type (last ms)" if "location_type (last ms) \<noteq> None"
    unfolding ty using agg_last_last[of "map location_type ms"] ne that l by simp
  have 2: "stay_location_type r = location_type_of_latest_out ms"
    if "location_type (last ms) \<noteq> None \<and> out_dttm (last ms) = agg_max (map out_dttm ms)"
    using 1 that latest_out_last[OF ne] by simp
  from ne srt 0 1 2 show ?thesis by blast
qed

lemma scenario_B_members:
  "scenario_B_stays ! 0 \<in> set scenario_B_stays"
  "members scenario_B_block (stay_encounter_block (scenario_B_stays ! 0))
     (stay_icu_group (scenario_B_stays ! 0)) = scenario_B_block"
  by (simp_all add: scenario_B_stays_def members_def scenario_B_block_def)

lemma nested_members:
  "nested_stays ! 0 \<in> set nested_stays"
  "members nested_block (stay_encounter_block (nested_stays ! 0))
     (stay_icu_group (nested_stays ! 0)) = [nested_block ! 0, nested_block ! 1]"
  by (simp_all add: nested_stays_def members_def nested_block_def)

theorem location_type_last_member_witness:
  "stitch_icu_stays scenario_B 6 = Inr scenario_B_stays
   \<and> icu_block scenario_B 6 = Inr scenario_B_block
   \<and> length scenario_B_block = 2
   \<and> stay_location_type (scenario_B_stays ! 0) = location_type_of_latest_out scenario_B_block
   \<and> stitch_icu_stays nested_adt 6 = Inr nested_stays
   \<and> icu_block nested_adt 6 = Inr nested_block
   \<and> stay_location_type (nested_stays ! 0) = location_type (nested_block ! 1)"
proof -
  have a: "location_type (last scenario_B_block) \<noteq> None
           \<and> out_dttm (last scenario_B_block) = agg_max (map out_dttm scenario_B_block)"
    by (simp add: scenario_B_block_def agg_max_def List.map_filter_simps)
  from location_type_last_member[OF scenario_B_stays_eval scenario_B_block_eval
      scenario_B_members(1) scenario_B_members(2)[symmetric]] a
  have 1: "stay_location_type (scenario_B_stays ! 0)
             = location_type_of_latest_out scenario_B_block"
    by blast
  have b: "location_type (last [nested_block ! 0, nested_block ! 1]) \<noteq> None"
    by (simp add: nested_block_def)
  from location_type_last_member[OF nested_stays_eval nested_block_eval
      nested_members(1) nested_members(2)[symmetric]] b
  have "stay_location_type (nested_stays ! 0)
          = location_type (last [nested_block ! 0, nested_block ! 1])"
    by blast
  then have 2: "stay_location_type (nested_stays ! 0) = location_type (nested_block ! 1)"
    by simp
  have 3: "length scenario_B_block = 2" by (simp add: scenario_B_block_def)
  from scenario_B_stays_eval scenario_B_block_eval 3 1 nested_stays_eval nested_block_eval 2
  show ?thesis by blast
qed

lemma open_stay_eval: "stitch_icu_stays open_stay 6 = Inr open_stay_stays"
  by code_simp

lemma closed_stay_eval: "stitch_icu_stays (filter timestamped open_stay) 6 = Inr closed_stay_stays"
  by code_simp

lemma open_stay_block_eval: "icu_block open_stay 6 = Inr open_stay_block"
  by code_simp

lemma open_stay_not_excluded: "\<not> null_rows_excluded open_stay 6"
  unfolding null_rows_excluded_def open_stay_eval closed_stay_eval
  by (simp add: open_stay_stays_def closed_stay_stays_def)

text \<open>
  C9, as stated, fails: an ICU segment without an \<open>out_dttm\<close> is not linked to the next
  one, but it stays in the table.  It gives an output row of its own (with a null
  \<open>out_dttm\<close>), and the group and the rank of the following segment count it.
\<close>

theorem null_rows_excluded_counterexample:
  "stitch_icu_stays open_stay 6 = Inr open_stay_stays \<and> \<not> null_rows_excluded open_stay 6"
  using open_stay_eval open_stay_not_excluded by (rule conjI)

lemma frame_of_timestamped:
  assumes "recorded_dttm r = Some t"
  shows "(\<exists>x\<in>set (filter (\<lambda>x. recorded_dttm x \<noteq> None) vent). in_frame w r x \<and> Q x)
           \<longleftrightarrow> (\<exists>x\<in>set vent. in_frame w r x \<and> Q x)"
  using assms by (auto simp: in_frame_def split: option.splits)

lemma execute_query_timestamped:
  "(e, Some t) \<in> set (execute_query vent w)
     \<longleftrightarrow> (e, Some t) \<in> set (execute_query (filter (\<lambda>x. recorded_dttm x \<noteq> None) vent) w)"
proof -
  let ?ts = "filter (\<lambda>x. recorded_dttm x \<noteq> None) vent"
  let ?Q = "\<lambda>v r. (\<exists>x\<in>set v. in_frame w r x \<and> device_category x = Some ''IMV'')
        \<and> (\<exists>x\<in>set v. in_frame w r x \<and> mode_category x \<noteq> None)
        \<and> (\<exists>x\<in>set v. in_frame w r x \<and> fio2_set x \<noteq> None)
        \<and> (\<exists>x\<in>set v. in_frame w r x \<and> peep_set x \<noteq> None)"
  have q: "?Q ?ts r \<longleftrightarrow> ?Q vent r" if "recorded_dttm r = Some t" for r
    by (simp only: frame_of_timestamped[OF that])
  have "(e, Some t) \<in> set (execute_query ?ts w)
          \<longleftrightarrow> (\<exists>r\<in>set ?ts. vent_row.encounter_block r = e \<and> recorded_dttm r = Some t \<and> ?Q ?ts r)"
    by (rule execute_query_mem)
  also have "\<dots> \<longleftrightarrow> (\<exists>r\<in>set vent. vent_row.encounter_block r = e \<and> recorded_dttm r = Some t
                          \<and> ?Q ?ts r)"
    by auto
  also have "\<dots> \<longleftrightarrow> (\<exists>r\<in>set vent. vent_row.encounter_block r = e \<and> recorded_dttm r = Some t
                          \<and> ?Q vent r)"
    using q by blast
  also have "\<dots> \<longleftrightarrow> (e, Some t) \<in> set (execute_query vent w)"
    by (rule execute_query_mem[symmetric])
  finally show ?thesis by simp
qed

lemma emitted_timestamped:
  "(e, Some t) \<in> emitted vent w
     \<longleftrightarrow> (e, Some t) \<in> emitted (filter (\<lambda>x. recorded_dttm x \<noteq> None) vent) w"
  unfolding emitted_eq frame_bounds_ok_filter
  using execute_query_timestamped by (simp split: sum.splits)

lemma find_intubation_times_raises_filter:
  "find_intubation_times vent w = Inl err
     \<longleftrightarrow> find_intubation_times (filter (\<lambda>x. recorded_dttm x \<noteq> None) vent) w = Inl err"
  unfolding find_intubation_times_def frame_bounds_ok_filter
  by (simp split: sum.splits del: not_None_eq)

lemma stitch_icu_stays_raises_iff:
  "stitch_icu_stays adt_df gap_hours = Inl IntCastingNaNError
     \<longleftrightarrow> (\<exists>r\<in>set adt_df. icu_mask r \<and> in_dttm r = None)"
  unfolding stitch_icu_stays_Inl icu_adt_Inl by (auto simp: icu_adt_df_def)

lemma null_out_not_linked:
  assumes ok: "icu_block adt_df gap = Inr blk" and b: "b \<in> set blk" and n: "out_dttm b = None"
  shows "\<not> linked6hrs b"
proof -
  define bs where "bs = filter (\<lambda>x. encounter_block x = encounter_block b) blk"
  note f = icu_block_encounter_facts[OF ok, of "encounter_block b", folded bs_def]
  from b have "b \<in> set bs" by (simp add: bs_def)
  then obtain k where k: "k < length bs" "bs ! k = b" by (auto simp: in_set_conv_nth)
  show ?thesis
  proof (cases "Suc k < length bs")
    case True
    with f(5) have "linked6hrs (bs ! k)
        = less_than (hours_between (out_dttm (bs ! k)) (in_dttm (bs ! Suc k))) gap" by blast
    then show ?thesis unfolding k(2) n by (simp add: less_than_hours_between)
  next
    case False
    with k(1) have "k = length bs - 1" by simp
    moreover from k(1) have ne: "bs \<noteq> []" by auto
    ultimately have "last bs = b" using k(2) by (simp add: last_conv_nth)
    with f(6) ne show ?thesis by simp
  qed
qed

text \<open>
  C9, amended.  Scan: a row with a null \<open>recorded_dttm\<close> is in the window of no
  timestamped row, so the pairs with a timestamp are those of the table without the
  null rows, and the call raises with the null rows exactly when it raises without
  them (the null rows of an encounter form a window of their own, and can be returned
  as a pair with a null timestamp).  Stitch: an ICU or stepdown row with a null
  \<open>in_dttm\<close> makes the run fail with the integer cast error, and this is the only
  failure; in a run that returns, a row with a null \<open>out_dttm\<close> is not linked, and its
  group is not the group of the next row of the encounter.  The row itself stays in the
  output.
\<close>

theorem null_timestamps_never_link:
  "(((e, Some t) \<in> emitted vent w
       \<longleftrightarrow> (e, Some t) \<in> emitted (filter (\<lambda>x. recorded_dttm x \<noteq> None) vent) w)
     \<and> (find_intubation_times vent w = Inl err
          \<longleftrightarrow> find_intubation_times (filter (\<lambda>x. recorded_dttm x \<noteq> None) vent) w = Inl err))
   \<and> (stitch_icu_stays adt_df gap_hours = Inl IntCastingNaNError
        \<longleftrightarrow> (\<exists>r\<in>set adt_df. icu_mask r \<and> in_dttm r = None))
   \<and> (icu_block adt_df gap_hours = Inr blk \<longrightarrow>
        (\<forall>b\<in>set blk. in_dttm b \<noteq> None \<and> (out_dttm b = None \<longrightarrow> \<not> linked6hrs b))
        \<and> (\<forall>k. Suc k < length (filter (\<lambda>b. encounter_block b = e') blk)
                \<and> out_dttm (filter (\<lambda>b. encounter_block b = e') blk ! k) = None \<longrightarrow>
                icu_group (filter (\<lambda>b. encounter_block b = e') blk ! k)
                  \<noteq> icu_group (filter (\<lambda>b. encounter_block b = e') blk ! Suc k)))"
proof (intro conjI impI ballI allI)
  show "(e, Some t) \<in> emitted vent w
      \<longleftrightarrow> (e, Some t) \<in> emitted (filter (\<lambda>x. recorded_dttm x \<noteq> None) vent) w"
    by (rule emitted_timestamped)
  show "find_intubation_times vent w = Inl err
      \<longleftrightarrow> find_intubation_times (filter (\<lambda>x. recorded_dttm x \<noteq> None) vent) w = Inl err"
    by (rule find_intubation_times_raises_filter)
  show "stitch_icu_stays adt_df gap_hours = Inl IntCastingNaNError
        \<longleftrightarrow> (\<exists>r\<in>set adt_df. icu_mask r \<and> in_dttm r = None)"
    by (rule stitch_icu_stays_raises_iff)
next
  fix b assume "icu_block adt_df gap_hours = Inr blk" "b \<in> set blk"
  then show "in_dttm b \<noteq> None" by (rule icu_block_all_rows(2))
next
  fix b assume "icu_block adt_df gap_hours = Inr blk" "b \<in> set blk" "out_dttm b = None"
  then show "\<not> linked6hrs b" by (rule null_out_not_linked)
next
  fix k
  define bs where "bs = filter (\<lambda>b. encounter_block b = e') blk"
  assume ok: "icu_block adt_df gap_hours = Inr blk"
    and "Suc k < length (filter (\<lambda>b. encounter_block b = e') blk)
                \<and> out_dttm (filter (\<lambda>b. encounter_block b = e') blk ! k) = None"
  then have k: "Suc k < length bs" and n: "out_dttm (bs ! k) = None"
    by (simp_all add: bs_def)
  note f = icu_block_encounter_facts[OF ok, of e', folded bs_def]
  from k have "bs ! k \<in> set bs" by simp
  then have "bs ! k \<in> set blk" by (simp add: bs_def)
  from null_out_not_linked[OF ok this n] have "\<not> linked6hrs (bs ! k)" .
  moreover from f(7) k have "(icu_group (bs ! k) = icu_group (bs ! Suc k)) = linked6hrs (bs ! k)"
    by blast
  ultimately show "icu_group (filter (\<lambda>b. encounter_block b = e') blk ! k)
                  \<noteq> icu_group (filter (\<lambda>b. encounter_block b = e') blk ! Suc k)"
    by (simp add: bs_def)
qed

theorem null_timestamps_never_link_witness:
  "icu_block open_stay 6 = Inr open_stay_block
   \<and> out_dttm (open_stay_block ! 0) = None
   \<and> icu_group (open_stay_block ! 0) \<noteq> icu_group (open_stay_block ! 1)
   \<and> stitch_icu_stays unstarted_stay 6 = Inl IntCastingNaNError"
proof -
  have bs: "filter (\<lambda>b. encounter_block b = 1) open_stay_block = open_stay_block"
    by (simp add: open_stay_block_def)
  have h: "Suc 0 < length (filter (\<lambda>b. encounter_block b = 1) open_stay_block)
           \<and> out_dttm (filter (\<lambda>b. encounter_block b = 1) open_stay_block ! 0) = None"
    unfolding bs by (simp add: open_stay_block_def)
  from null_timestamps_never_link[of _ _ _ _ _ open_stay 6 open_stay_block 1,
      THEN conjunct2, THEN conjunct2, rule_format, OF open_stay_block_eval, THEN conjunct2,
      rule_format, OF h]
  have g: "icu_group (open_stay_block ! 0) \<noteq> icu_group (open_stay_block ! 1)"
    unfolding bs by simp
  have "\<exists>r\<in>set unstarted_stay. icu_mask r \<and> in_dttm r = None"
    by (simp add: unstarted_stay_def segment_def icu_mask_def str_lower_def lower_char_def)
  with null_timestamps_never_link[of _ _ _ _ _ unstarted_stay 6, THEN conjunct2, THEN conjunct1]
  have r: "stitch_icu_stays unstarted_stay 6 = Inl IntCastingNaNError" by simp
  have "out_dttm (open_stay_block ! 0) = None" by (simp add: open_stay_block_def)
  with open_stay_block_eval g r show ?thesis by simp
qed

lemma two_stays_eval: "stitch_icu_stays two_stays 6 = Inr two_stays_out"
  by code_simp

lemma boundary_between:
  fixes f :: "nat \<Rightarrow> 'a"
  assumes "i < j" and "f i \<noteq> f j"
  shows "\<exists>k. i \<le> k \<and> k < j \<and> f k \<noteq> f (Suc k)"
  using assms
proof (induction j)
  case 0
  then show ?case by simp
next
  case (Suc j)
  show ?case
  proof (cases "f j = f (Suc j)")
    case True
    with Suc.prems have "f i \<noteq> f j" by simp
    then have "i \<noteq> j" by auto
    with Suc.prems have "i < j" by simp
    from Suc.IH[OF this \<open>f i \<noteq> f j\<close>] obtain k where "i \<le> k" "k < j" "f k \<noteq> f (Suc k)"
      by blast
    then show ?thesis by (intro exI[of _ k]) simp
  next
    case False
    with Suc.prems show ?thesis by (intro exI[of _ j]) simp
  qed
qed

lemma fold_max_Max: "fold max xs (x::int) = Max (set (x # xs))"
  by (rule Max.set_eq_fold[symmetric])

lemma agg_max_valid:
  assumes "col \<noteq> []" and "None \<notin> set col"
  shows "agg_max col = Some (Max (the ` set col))"
proof -
  from assms(1) obtain x xs where col: "map the col = x # xs" by (cases col) auto
  have "agg_max col = Some (fold max xs x)"
    by (simp add: agg_max_def map_filter_id_valid[OF assms(2)] col)
  also have "fold max xs x = Max (set (map the col))"
    unfolding col by (rule fold_max_Max)
  finally show ?thesis by simp
qed

lemma block_row_input:
  assumes ok: "icu_block adt_df gap = Inr blk" and b: "b \<in> set blk"
  shows "\<exists>r\<in>set (icu_adt_df adt_df). encounter_block r = encounter_block b
           \<and> in_dttm r = in_dttm b \<and> out_dttm r = out_dttm b"
proof -
  define bs where "bs = filter (\<lambda>x. encounter_block x = encounter_block b) blk"
  note f = icu_block_encounter_facts(9)[OF ok, of "encounter_block b", folded bs_def]
  from b have "b \<in> set bs" by (simp add: bs_def)
  then have "adt_row.truncate b \<in> set (map adt_row.truncate bs)" by simp
  then have "adt_row.truncate b \<in> set (icu_adt_df adt_df)" unfolding f by simp
  then show ?thesis
    by (rule bexI[rotated]) (simp add: adt_row.truncate_def)
qed

lemma groups_separated:
  \<comment> \<open>between a row and a row of a later group lies a row that is not linked\<close>
  assumes ok: "icu_block adt_df gap = Inr blk"
    and b1: "b1 \<in> set blk" and b2: "b2 \<in> set blk"
    and enc: "encounter_block b1 = encounter_block b2"
    and lt: "the (icu_group b1) < the (icu_group b2)"
  shows "\<exists>x\<in>set blk. \<exists>y\<in>set blk. encounter_block x = encounter_block b1
           \<and> encounter_block y = encounter_block b1
           \<and> the (in_dttm b1) \<le> the (in_dttm x)
           \<and> the (in_dttm y) \<le> the (in_dttm b2)
           \<and> \<not> less_than (hours_between (out_dttm x) (in_dttm y)) gap"
proof -
  define e where "e = encounter_block b1"
  define bs where "bs = filter (\<lambda>b. encounter_block b = e) blk"
  note f = icu_block_encounter_facts[OF ok, of e, folded bs_def]
  from b1 have "b1 \<in> set bs" by (simp add: bs_def e_def)
  then obtain i where i: "i < length bs" "bs ! i = b1" by (auto simp: in_set_conv_nth)
  from b2 enc have "b2 \<in> set bs" by (simp add: bs_def e_def)
  then obtain j where j: "j < length bs" "bs ! j = b2" by (auto simp: in_set_conv_nth)
  have ij: "i < j"
  proof (rule ccontr)
    assume "\<not> i < j"
    then have "j \<le> i" by simp
    with f(4) i have "map (\<lambda>b. the (icu_group b)) bs ! j \<le> map (\<lambda>b. the (icu_group b)) bs ! i"
      by (intro sorted_nth_mono) simp_all
    with i j lt show False by simp
  qed
  from lt i j have "icu_group (bs ! i) \<noteq> icu_group (bs ! j)" by auto
  from boundary_between[of i j "\<lambda>k. icu_group (bs ! k)", OF ij this]
  obtain k where k: "i \<le> k" "k < j" "icu_group (bs ! k) \<noteq> icu_group (bs ! Suc k)" by blast
  from k(2) j(1) have sk: "Suc k < length bs" by simp
  with f(7) k(3) have "\<not> linked6hrs (bs ! k)" by blast
  with f(5) sk
  have nl: "\<not> less_than (hours_between (out_dttm (bs ! k)) (in_dttm (bs ! Suc k))) gap"
    by blast
  have "map (\<lambda>b. the (in_dttm b)) bs ! i \<le> map (\<lambda>b. the (in_dttm b)) bs ! k"
    using f(3) k(1) sk by (intro sorted_nth_mono) simp_all
  then have 1: "the (in_dttm b1) \<le> the (in_dttm (bs ! k))" using i sk by simp
  have "map (\<lambda>b. the (in_dttm b)) bs ! Suc k \<le> map (\<lambda>b. the (in_dttm b)) bs ! j"
    using f(3) k(2) j(1) by (intro sorted_nth_mono) simp_all
  then have 2: "the (in_dttm (bs ! Suc k)) \<le> the (in_dttm b2)" using j sk by simp
  from sk have m: "bs ! k \<in> set bs" "bs ! Suc k \<in> set bs" by simp_all
  then have "bs ! k \<in> set blk" "bs ! Suc k \<in> set blk"
    "encounter_block (bs ! k) = e" "encounter_block (bs ! Suc k) = e"
    by (simp_all add: bs_def)
  with 1 2 nl show ?thesis unfolding e_def by blast
qed

lemma well_formed_block:
  assumes ok: "icu_block adt_df gap = Inr blk" and wf: "segments_well_formed adt_df"
    and b: "b \<in> set blk"
  shows "\<exists>s t. in_dttm b = Some s \<and> out_dttm b = Some t \<and> s \<le> t"
proof -
  from block_row_input[OF ok b] obtain r where r: "r \<in> set (icu_adt_df adt_df)"
    "in_dttm r = in_dttm b" "out_dttm r = out_dttm b" by blast
  from wf r(1) have "case in_dttm r of None \<Rightarrow> False
        | Some a \<Rightarrow> (case out_dttm r of None \<Rightarrow> False | Some b \<Rightarrow> a \<le> b)"
    unfolding segments_well_formed_def by blast
  then show ?thesis unfolding r(2,3) by (auto split: option.splits)
qed

lemma not_nested_block:
  assumes ok: "icu_block adt_df gap = Inr blk" and nn: "segments_not_nested adt_df"
    and b: "b \<in> set blk" and c: "c \<in> set blk"
    and enc: "encounter_block b = encounter_block c"
    and le: "the (in_dttm b) \<le> the (in_dttm c)"
  shows "the (out_dttm b) \<le> the (out_dttm c)"
proof -
  from block_row_input[OF ok b] obtain r where r: "r \<in> set (icu_adt_df adt_df)"
    "encounter_block r = encounter_block b"
    "in_dttm r = in_dttm b" "out_dttm r = out_dttm b" by blast
  from block_row_input[OF ok c] obtain s where s: "s \<in> set (icu_adt_df adt_df)"
    "encounter_block s = encounter_block c"
    "in_dttm s = in_dttm c" "out_dttm s = out_dttm c" by blast
  from enc le have "encounter_block r = encounter_block s \<and> the (in_dttm r) \<le> the (in_dttm s)"
    by (simp add: r s)
  with nn r(1) s(1) have "the (out_dttm r) \<le> the (out_dttm s)"
    unfolding segments_not_nested_def by blast
  then show ?thesis by (simp add: r s)
qed

lemma rows_separated:
  \<comment> \<open>with a positive threshold, a row of a later group starts after some row has ended
      that starts no earlier than the given row of the earlier group\<close>
  assumes ok: "icu_block adt_df gap = Inr blk" and pos: "0 < gap"
    and wf: "segments_well_formed adt_df"
    and b1: "b1 \<in> set blk" and b2: "b2 \<in> set blk"
    and enc: "encounter_block b1 = encounter_block b2"
    and lt: "the (icu_group b1) < the (icu_group b2)"
  shows "\<exists>x\<in>set blk. encounter_block x = encounter_block b1
           \<and> the (in_dttm b1) \<le> the (in_dttm x)
           \<and> the (in_dttm x) \<le> the (out_dttm x)
           \<and> the (out_dttm x) < the (in_dttm b2)"
proof -
  from groups_separated[OF ok b1 b2 enc lt] obtain x y where
    x: "x \<in> set blk" "encounter_block x = encounter_block b1"
    and y: "y \<in> set blk"
    and 1: "the (in_dttm b1) \<le> the (in_dttm x)"
    and 2: "the (in_dttm y) \<le> the (in_dttm b2)"
    and nl: "\<not> less_than (hours_between (out_dttm x) (in_dttm y)) gap"
    by blast
  from well_formed_block[OF ok wf x(1)] obtain s t where
    st: "in_dttm x = Some s" "out_dttm x = Some t" "s \<le> t" by blast
  from well_formed_block[OF ok wf y] obtain u where u: "in_dttm y = Some u" by blast
  from nl have "\<not> (round_double (total_seconds (u - t) / 3600) < gap)"
    unfolding less_than_hours_between st u by simp
  with pos have "(0::rat) < round_double (total_seconds (u - t) / 3600)" by simp
  with hours_nonpos[of "u - t"] have "\<not> u - t \<le> 0" by auto
  then have "t < u" by simp
  with 2 have "the (out_dttm x) < the (in_dttm b2)" by (simp add: st u)
  with x 1 st show ?thesis by (intro bexI[of _ x]) simp_all
qed

lemma group_start_attained:
  assumes ok: "icu_block adt_df gap = Inr blk" and b: "b \<in> set blk"
  obtains m where "m \<in> set blk" "encounter_block m = encounter_block b"
    "icu_group m = icu_group b" "stay_in_dttm (final_row blk b) = Some (the (in_dttm m))"
proof -
  define ms where "ms = members blk (encounter_block b) (icu_group b)"
  have sub: "set ms \<subseteq> set blk" by (auto simp: ms_def members_subset)
  have "b \<in> set ms" using b by (simp add: ms_def members_subset)
  then have ne: "map in_dttm ms \<noteq> []" by auto
  have v: "None \<notin> set (map in_dttm ms)"
  proof
    assume "None \<in> set (map in_dttm ms)"
    then obtain x where "x \<in> set ms" "None = in_dttm x" by auto
    with sub icu_block_all_rows(2)[OF ok] show False by (metis subsetD)
  qed
  have "Min (the ` set (map in_dttm ms)) \<in> the ` set (map in_dttm ms)"
    using ne by (intro Min_in) auto
  then obtain m where m: "m \<in> set ms" "Min (the ` set (map in_dttm ms)) = the (in_dttm m)"
    by auto
  have "stay_in_dttm (final_row blk b) = Some (the (in_dttm m))"
    using agg_min_valid[OF ne v] m(2) by (simp add: ms_def)
  moreover from m(1) have "m \<in> set blk" "encounter_block m = encounter_block b"
    "icu_group m = icu_group b" by (simp_all add: ms_def members_subset)
  ultimately show thesis using that by blast
qed

lemma group_end_attained:
  assumes ok: "icu_block adt_df gap = Inr blk" and wf: "segments_well_formed adt_df"
    and b: "b \<in> set blk"
  obtains m where "m \<in> set blk" "encounter_block m = encounter_block b"
    "icu_group m = icu_group b" "stay_out_dttm (final_row blk b) = Some (the (out_dttm m))"
proof -
  define ms where "ms = members blk (encounter_block b) (icu_group b)"
  have sub: "set ms \<subseteq> set blk" by (auto simp: ms_def members_subset)
  have "b \<in> set ms" using b by (simp add: ms_def members_subset)
  then have ne: "map out_dttm ms \<noteq> []" by auto
  have v: "None \<notin> set (map out_dttm ms)"
  proof
    assume "None \<in> set (map out_dttm ms)"
    then obtain x where x: "x \<in> set ms" "None = out_dttm x" by auto
    with sub have "x \<in> set blk" by blast
    from well_formed_block[OF ok wf this] x(2) show False by auto
  qed
  have "Max (the ` set (map out_dttm ms)) \<in> the ` set (map out_dttm ms)"
    using ne by (intro Max_in) auto
  then obtain m where m: "m \<in> set ms" "Max (the ` set (map out_dttm ms)) = the (out_dttm m)"
    by auto
  have "stay_out_dttm (final_row blk b) = Some (the (out_dttm m))"
    using agg_max_valid[OF ne v] m(2) by (simp add: ms_def)
  moreover from m(1) have "m \<in> set blk" "encounter_block m = encounter_block b"
    "icu_group m = icu_group b" by (simp_all add: ms_def members_subset)
  ultimately show thesis using that by blast
qed

lemma groups_strictly_ordered:
  assumes ok: "icu_block adt_df gap = Inr blk" and pos: "0 < gap"
    and wf: "segments_well_formed adt_df"
    and b1: "b1 \<in> set blk" and b2: "b2 \<in> set blk"
    and enc: "encounter_block b1 = encounter_block b2"
    and lt: "the (icu_group b1) < the (icu_group b2)"
  shows "\<exists>a c. stay_in_dttm (final_row blk b1) = Some a
             \<and> stay_in_dttm (final_row blk b2) = Some c \<and> a < c"
proof -
  from group_start_attained[OF ok b1] obtain m1 where m1: "m1 \<in> set blk"
    "encounter_block m1 = encounter_block b1" "icu_group m1 = icu_group b1"
    "stay_in_dttm (final_row blk b1) = Some (the (in_dttm m1))" by blast
  from group_start_attained[OF ok b2] obtain m2 where m2: "m2 \<in> set blk"
    "encounter_block m2 = encounter_block b2" "icu_group m2 = icu_group b2"
    "stay_in_dttm (final_row blk b2) = Some (the (in_dttm m2))" by blast
  have e12: "encounter_block m1 = encounter_block m2" using m1(2) m2(2) enc by simp
  have l12: "the (icu_group m1) < the (icu_group m2)" using lt m1(3) m2(3) by simp
  from rows_separated[OF ok pos wf m1(1) m2(1) e12 l12]
  obtain x where "x \<in> set blk" "the (in_dttm m1) \<le> the (in_dttm x)"
    "the (in_dttm x) \<le> the (out_dttm x)" "the (out_dttm x) < the (in_dttm m2)"
    by blast
  then have "the (in_dttm m1) < the (in_dttm m2)" by simp
  with m1(4) m2(4) show ?thesis by simp
qed

lemma groups_disjoint:
  assumes ok: "icu_block adt_df gap = Inr blk" and pos: "0 < gap"
    and wf: "segments_well_formed adt_df" and nn: "segments_not_nested adt_df"
    and b1: "b1 \<in> set blk" and b2: "b2 \<in> set blk"
    and enc: "encounter_block b1 = encounter_block b2"
    and lt: "the (icu_group b1) < the (icu_group b2)"
  shows "\<exists>b c. stay_out_dttm (final_row blk b1) = Some b
             \<and> stay_in_dttm (final_row blk b2) = Some c \<and> b < c"
proof -
  from group_end_attained[OF ok wf b1] obtain m1 where m1: "m1 \<in> set blk"
    "encounter_block m1 = encounter_block b1" "icu_group m1 = icu_group b1"
    "stay_out_dttm (final_row blk b1) = Some (the (out_dttm m1))" by blast
  from group_start_attained[OF ok b2] obtain m2 where m2: "m2 \<in> set blk"
    "encounter_block m2 = encounter_block b2" "icu_group m2 = icu_group b2"
    "stay_in_dttm (final_row blk b2) = Some (the (in_dttm m2))" by blast
  have e12: "encounter_block m1 = encounter_block m2" using m1(2) m2(2) enc by simp
  have l12: "the (icu_group m1) < the (icu_group m2)" using lt m1(3) m2(3) by simp
  from rows_separated[OF ok pos wf m1(1) m2(1) e12 l12]
  obtain x where x: "x \<in> set blk" "encounter_block x = encounter_block m1"
    "the (in_dttm m1) \<le> the (in_dttm x)" "the (out_dttm x) < the (in_dttm m2)"
    by blast
  from not_nested_block[OF ok nn m1(1) x(1) x(2)[symmetric] x(3)]
  have "the (out_dttm m1) \<le> the (out_dttm x)" .
  with x(4) have "the (out_dttm m1) < the (in_dttm m2)" by simp
  with m1(4) m2(4) show ?thesis by simp
qed

text \<open>
  C2, amended.  In a run that returns, the output rows of an encounter in the order of
  \<open>icu_rank\<close> have an \<open>in_dttm\<close> that does not decrease.  When \<open>gap_hours\<close> is positive
  and every ICU or stepdown row has both timestamps and does not end before it starts,
  a row of higher rank starts strictly later.  When, in addition, no row ends after a
  row of its encounter that starts no earlier, a row of higher rank starts after every
  row of lower rank has ended: the intervals do not overlap.
\<close>

theorem groups_ordered_by_start:
  assumes "stitch_icu_stays adt_df gap_hours = Inr out"
  shows "(\<forall>r1\<in>set out. \<forall>r2\<in>set out.
            stay_encounter_block r1 = stay_encounter_block r2
            \<and> stay_icu_rank r1 \<le> stay_icu_rank r2 \<longrightarrow>
              (\<exists>a c. stay_in_dttm r1 = Some a \<and> stay_in_dttm r2 = Some c \<and> a \<le> c))
       \<and> (0 < gap_hours \<and> segments_well_formed adt_df \<longrightarrow>
            (\<forall>r1\<in>set out. \<forall>r2\<in>set out.
               stay_encounter_block r1 = stay_encounter_block r2
               \<and> stay_icu_rank r1 < stay_icu_rank r2 \<longrightarrow>
                 (\<exists>a c. stay_in_dttm r1 = Some a \<and> stay_in_dttm r2 = Some c \<and> a < c)))
       \<and> (0 < gap_hours \<and> segments_well_formed adt_df \<and> segments_not_nested adt_df \<longrightarrow>
            increasing_disjoint out)"
proof -
  from assms obtain blk where blk: "icu_block adt_df gap_hours = Inr blk"
    and out: "set out = final_row blk ` set blk"
    by (rule stitch_icu_stays_Inr)
  have 1: "\<exists>a c. stay_in_dttm r1 = Some a \<and> stay_in_dttm r2 = Some c \<and> a \<le> c"
    if r1: "r1 \<in> set out" and r2: "r2 \<in> set out"
      and h: "stay_encounter_block r1 = stay_encounter_block r2
              \<and> stay_icu_rank r1 \<le> stay_icu_rank r2" for r1 r2
  proof -
    from r1 r2 out obtain b1 b2 where b: "b1 \<in> set blk" "b2 \<in> set blk"
      "r1 = final_row blk b1" "r2 = final_row blk b2" by auto
    from h have e12: "encounter_block b1 = encounter_block b2" unfolding b by simp
    from h have "\<not> stay_icu_rank (final_row blk b2) < stay_icu_rank (final_row blk b1)"
      unfolding b by simp
    then have "\<not> the (icu_group b2) < the (icu_group b1)"
      unfolding final_rank_less_iff[OF b(2,1) e12[symmetric]] .
    then have "the (icu_group b1) \<le> the (icu_group b2)" by simp
    from group_start_mono[OF blk b(1,2) e12 this] show ?thesis unfolding b .
  qed
  have 2: "\<exists>a c. stay_in_dttm r1 = Some a \<and> stay_in_dttm r2 = Some c \<and> a < c"
    if pos: "0 < gap_hours" and wf: "segments_well_formed adt_df"
      and r1: "r1 \<in> set out" and r2: "r2 \<in> set out"
      and h: "stay_encounter_block r1 = stay_encounter_block r2
              \<and> stay_icu_rank r1 < stay_icu_rank r2" for r1 r2
  proof -
    from r1 r2 out obtain b1 b2 where b: "b1 \<in> set blk" "b2 \<in> set blk"
      "r1 = final_row blk b1" "r2 = final_row blk b2" by auto
    from h have e12: "encounter_block b1 = encounter_block b2" unfolding b by simp
    from h have "stay_icu_rank (final_row blk b1) < stay_icu_rank (final_row blk b2)"
      unfolding b by simp
    then have "the (icu_group b1) < the (icu_group b2)"
      unfolding final_rank_less_iff[OF b(1,2) e12] .
    from groups_strictly_ordered[OF blk pos wf b(1,2) e12 this] show ?thesis unfolding b .
  qed
  have 3: "increasing_disjoint out"
    if pos: "0 < gap_hours" and wf: "segments_well_formed adt_df"
      and nn: "segments_not_nested adt_df"
    unfolding increasing_disjoint_def
  proof (intro ballI impI)
    fix r1 r2
    assume r1: "r1 \<in> set out" and r2: "r2 \<in> set out"
      and h: "stay_encounter_block r1 = stay_encounter_block r2
              \<and> stay_icu_rank r1 < stay_icu_rank r2"
    from r1 r2 out obtain b1 b2 where b: "b1 \<in> set blk" "b2 \<in> set blk"
      "r1 = final_row blk b1" "r2 = final_row blk b2" by auto
    from h have e12: "encounter_block b1 = encounter_block b2" unfolding b by simp
    from h have "stay_icu_rank (final_row blk b1) < stay_icu_rank (final_row blk b2)"
      unfolding b by simp
    then have lt: "the (icu_group b1) < the (icu_group b2)"
      unfolding final_rank_less_iff[OF b(1,2) e12] .
    from groups_strictly_ordered[OF blk pos wf b(1,2) e12 lt]
    obtain a c where ac: "stay_in_dttm r1 = Some a" "stay_in_dttm r2 = Some c" "a < c"
      unfolding b by blast
    from groups_disjoint[OF blk pos wf nn b(1,2) e12 lt]
    obtain b' c' where bc: "stay_out_dttm r1 = Some b'" "stay_in_dttm r2 = Some c'" "b' < c'"
      unfolding b by blast
    from ac bc show "\<exists>a b c. stay_in_dttm r1 = Some a \<and> stay_out_dttm r1 = Some b
                     \<and> stay_in_dttm r2 = Some c \<and> a < c \<and> b < c"
      by simp
  qed
  from 1 2 3 show ?thesis by blast
qed

lemma two_stays_regular: "segments_well_formed two_stays" "segments_not_nested two_stays"
  by (simp_all add: segments_well_formed_def segments_not_nested_def two_stays_def segment_def
      icu_adt_df_def icu_mask_def str_lower_def lower_char_def)

theorem groups_ordered_by_start_witness:
  "stitch_icu_stays nested_adt 6 = Inr nested_stays
   \<and> (\<exists>a c. stay_in_dttm (nested_stays ! 0) = Some a
            \<and> stay_in_dttm (nested_stays ! 2) = Some c \<and> a \<le> c)
   \<and> stitch_icu_stays two_stays 6 = Inr two_stays_out
   \<and> segments_well_formed two_stays \<and> segments_not_nested two_stays
   \<and> stay_icu_rank (two_stays_out ! 0) < stay_icu_rank (two_stays_out ! 1)
   \<and> increasing_disjoint two_stays_out"
proof -
  have h: "stay_encounter_block (nested_stays ! 0) = stay_encounter_block (nested_stays ! 2)
         \<and> stay_icu_rank (nested_stays ! 0) \<le> stay_icu_rank (nested_stays ! 2)"
    by (simp add: nested_stays_def)
  from groups_ordered_by_start[OF nested_stays_eval, THEN conjunct1, rule_format,
      OF nested_rows h]
  have 1: "\<exists>a c. stay_in_dttm (nested_stays ! 0) = Some a
            \<and> stay_in_dttm (nested_stays ! 2) = Some c \<and> a \<le> c" .
  have p: "(0::rat) < 6 \<and> segments_well_formed two_stays \<and> segments_not_nested two_stays"
    using two_stays_regular by simp
  from groups_ordered_by_start[OF two_stays_eval, THEN conjunct2, THEN conjunct2,
      rule_format, OF p]
  have 2: "increasing_disjoint two_stays_out" .
  have 3: "stay_icu_rank (two_stays_out ! 0) < stay_icu_rank (two_stays_out ! 1)"
    by (simp add: two_stays_out_def)
  from nested_stays_eval 1 two_stays_eval two_stays_regular 3 2 show ?thesis by blast
qed

end
